theory Spec2Isabelle
  imports Complex_Main "HOL-Library.Monad_Syntax"
begin

section \<open>The node graph of \<^verbatim>\<open>phy.c\<close>\<close>

text \<open>
  A \<^verbatim>\<open>struct phy_node *\<close> is an address (\<open>nat\<close>) or \<^verbatim>\<open>NULL\<close> (\<open>None\<close>); the heap maps every
  address to the node stored there.  C \<^verbatim>\<open>int\<close> is modelled by \<open>int\<close> (trees with more than
  \<open>2^31\<close> nodes are out of scope) and \<^verbatim>\<open>double\<close> by \<open>real\<close> (no rounding).  The client
  payload fields \<^verbatim>\<open>data\<close> and \<^verbatim>\<open>data_free\<close> are not modelled; \<^verbatim>\<open>malloc\<close> always succeeds
  and \<^verbatim>\<open>free\<close> is a no-op.

  A function of the model that may dereference \<^verbatim>\<open>NULL\<close>, index an array out of bounds
  or loop forever returns an \<open>option\<close>: \<open>None\<close> stands for "the C function does not
  return normally" (undefined behaviour, or the loop's fuel ran out).
\<close>

record phy_node =
  index :: int
  ndesc :: int
  lab :: "string option"
  "note" :: "string option"
  lfdesc :: "nat option"
  "next" :: "nat option"
  prev :: "nat option"
  anc :: "nat option"
  lastvisit :: "nat option"
  brlen :: real

type_synonym heap = "nat \<Rightarrow> phy_node"

text \<open>The field values \<^verbatim>\<open>node_new\<close> writes.\<close>

definition node_init :: phy_node where
  "node_init = \<lparr> index = -1, ndesc = 0, lab = None, note = None, lfdesc = None,
     next = None, prev = None, anc = None, lastvisit = None, brlen = 0 \<rparr>"

text \<open>The store: the heap, the next unused address, and the global \<^verbatim>\<open>phy_errno\<close>.\<close>

record store =
  heap :: heap
  brk :: nat
  phy_errno :: int

definition store_init :: store where
  "store_init = \<lparr> heap = (\<lambda>_. node_init), brk = 0, phy_errno = 0 \<rparr>"

definition node_new :: "store \<Rightarrow> store \<times> nat" where
  "node_new s = (s\<lparr> heap := (heap s)(brk s := node_init), brk := Suc (brk s) \<rparr>, brk s)"

text \<open>Field assignments \<^verbatim>\<open>p->f = v\<close>.\<close>

definition set_index :: "heap \<Rightarrow> nat \<Rightarrow> int \<Rightarrow> heap" where
  "set_index h p v = h(p := (h p)\<lparr> index := v \<rparr>)"

definition set_ndesc :: "heap \<Rightarrow> nat \<Rightarrow> int \<Rightarrow> heap" where
  "set_ndesc h p v = h(p := (h p)\<lparr> ndesc := v \<rparr>)"

definition set_lab :: "heap \<Rightarrow> nat \<Rightarrow> string option \<Rightarrow> heap" where
  "set_lab h p v = h(p := (h p)\<lparr> lab := v \<rparr>)"

definition set_note :: "heap \<Rightarrow> nat \<Rightarrow> string option \<Rightarrow> heap" where
  "set_note h p v = h(p := (h p)\<lparr> note := v \<rparr>)"

definition set_lfdesc :: "heap \<Rightarrow> nat \<Rightarrow> nat option \<Rightarrow> heap" where
  "set_lfdesc h p v = h(p := (h p)\<lparr> lfdesc := v \<rparr>)"

definition set_next :: "heap \<Rightarrow> nat \<Rightarrow> nat option \<Rightarrow> heap" where
  "set_next h p v = h(p := (h p)\<lparr> next := v \<rparr>)"

definition set_prev :: "heap \<Rightarrow> nat \<Rightarrow> nat option \<Rightarrow> heap" where
  "set_prev h p v = h(p := (h p)\<lparr> prev := v \<rparr>)"

definition set_anc :: "heap \<Rightarrow> nat \<Rightarrow> nat option \<Rightarrow> heap" where
  "set_anc h p v = h(p := (h p)\<lparr> anc := v \<rparr>)"

definition set_lastvisit :: "heap \<Rightarrow> nat \<Rightarrow> nat option \<Rightarrow> heap" where
  "set_lastvisit h p v = h(p := (h p)\<lparr> lastvisit := v \<rparr>)"

definition set_brlen :: "heap \<Rightarrow> nat \<Rightarrow> real \<Rightarrow> heap" where
  "set_brlen h p v = h(p := (h p)\<lparr> brlen := v \<rparr>)"

subsection \<open>\<^verbatim>\<open>phy_node_add_child\<close> and \<^verbatim>\<open>phy_node_prune\<close>\<close>

text \<open>\<^verbatim>\<open>r->next->...->next\<close>, \<open>k\<close> times; every pointer on the way is dereferenced.\<close>

fun walk_next :: "heap \<Rightarrow> nat \<Rightarrow> nat \<Rightarrow> nat option" where
  "walk_next h 0 r = Some r"
| "walk_next h (Suc k) r = (case next (h r) of None \<Rightarrow> None | Some r' \<Rightarrow> walk_next h k r')"

text \<open>\<^verbatim>\<open>for (r = parent->lfdesc; r->next != 0; r = r->next) {}\<close>\<close>

fun last_sibling :: "nat \<Rightarrow> heap \<Rightarrow> nat \<Rightarrow> nat option" where
  "last_sibling 0 h r = None"
| "last_sibling (Suc fuel) h r =
     (case next (h r) of None \<Rightarrow> Some r | Some r' \<Rightarrow> last_sibling fuel h r')"

definition phy_node_add_child :: "nat \<Rightarrow> heap \<Rightarrow> nat \<Rightarrow> nat \<Rightarrow> heap option" where
  "phy_node_add_child fuel h parent child =
     do {
       h1 \<leftarrow>
         (if ndesc (h parent) = 0 then
            Some (set_prev (set_lfdesc h parent (Some child)) child None)
          else if 1 \<le> ndesc (h parent) \<and> ndesc (h parent) \<le> 5 then
            do {
              l \<leftarrow> lfdesc (h parent);
              r \<leftarrow> walk_next h (nat (ndesc (h parent) - 1)) l;
              Some (set_prev (set_next h r (Some child)) child (Some r))
            }
          else
            do {
              l \<leftarrow> lfdesc (h parent);
              r \<leftarrow> last_sibling fuel h l;
              Some (set_prev (set_next h r (Some child)) child (Some r))
            });
       let h2 = set_ndesc h1 parent (ndesc (h1 parent) + 1);
       Some (set_anc h2 child (Some parent))
     }"

text \<open>
  \<^verbatim>\<open>phy_node_prune(p, q)\<close> returns the new heap and the returned pointer
  (\<^verbatim>\<open>NULL\<close> when \<open>q\<close> or \<open>p\<close> is \<^verbatim>\<open>NULL\<close> or \<open>q\<close> is not a child of \<open>p\<close>).
\<close>

definition phy_node_prune :: "heap \<Rightarrow> nat option \<Rightarrow> nat option \<Rightarrow> heap \<times> nat option" where
  "phy_node_prune h p q =
     (case (p, q) of
        (Some pa, Some qa) \<Rightarrow>
          if anc (h qa) \<noteq> Some pa then (h, None)
          else
            let prv = prev (h qa);
                nxt = next (h qa);
                h1 = set_anc (set_next (set_prev h qa None) qa None) qa None;
                h2 = (case prv of None \<Rightarrow> h1 | Some x \<Rightarrow> set_next h1 x nxt);
                h3 = (case nxt of None \<Rightarrow> h2 | Some x \<Rightarrow> set_prev h2 x prv);
                h4 = (if Some qa = lfdesc (h3 pa) then set_lfdesc h3 pa nxt else h3);
                h5 = set_ndesc h4 pa (ndesc (h4 pa) - 1)
            in (h5, Some qa)
      | _ \<Rightarrow> (h, None))"

subsection \<open>\<^verbatim>\<open>phy_node_swap\<close>\<close>

text \<open>Every statement reads the heap as the statements before it left it.\<close>

definition phy_node_swap :: "heap \<Rightarrow> nat \<Rightarrow> nat \<Rightarrow> heap" where
  "phy_node_swap h a b =
     (if anc (h a) = None \<or> anc (h b) = None \<or> anc (h a) \<noteq> anc (h b) then h
      else
        let nxt = next (h a);
            prv = prev (h a);
            h1 = set_next h a (next (h b));
            h2 = set_prev h1 a (prev (h1 b));
            h3 = (case next (h2 b) of None \<Rightarrow> h2 | Some x \<Rightarrow> set_prev h2 x (Some a));
            h4 = (case prev (h3 b) of None \<Rightarrow> h3 | Some x \<Rightarrow> set_next h3 x (Some a));
            h5 = set_next h4 b nxt;
            h6 = set_prev h5 b prv;
            h7 = (case nxt of None \<Rightarrow> h6 | Some x \<Rightarrow> set_prev h6 x (Some b));
            h8 = (case prv of None \<Rightarrow> h7 | Some x \<Rightarrow> set_next h7 x (Some b))
        in (case anc (h8 a) of
              None \<Rightarrow> h8
            | Some pa \<Rightarrow> if lfdesc (h8 pa) = Some a then set_lfdesc h8 pa (Some b) else h8))"

subsection \<open>\<^verbatim>\<open>phy_errmsg\<close>\<close>

definition PHY_ERR1 :: string where
  "PHY_ERR1 = ''cannot allocate memory''"

definition PHY_ERR2 :: string where
  "PHY_ERR2 = ''encountered unexpected character in Newick string node label/branch length''"

definition PHY_ERR3 :: string where
  "PHY_ERR3 = ''detected unifurcation in Newick string''"

definition PHY_ERR4 :: string where
  "PHY_ERR4 = ''malformed Newick string''"

text \<open>The argument is the value of \<^verbatim>\<open>phy_errno\<close>; the result is the message and the new value.\<close>

definition phy_errmsg :: "int \<Rightarrow> string \<times> int" where
  "phy_errmsg e =
     (if e = 1 then (PHY_ERR1, 0)
      else if e = 2 then (PHY_ERR2, 0)
      else if e = 3 then (PHY_ERR3, 0)
      else if e = 4 then (PHY_ERR4, 0)
      else (''no errors detected'', e))"


section \<open>The Newick reader\<close>

text \<open>
  A C string is a \<open>string\<close> without an embedded NUL; reading the byte at index
  \<open>length s\<close> yields the terminating NUL and reading further is out of bounds.
  The scratch buffer \<^verbatim>\<open>z\<close> of \<^verbatim>\<open>n\<close> bytes in a block of \<^verbatim>\<open>nAlloc\<close> bytes is the string
  \<open>rd_z\<close> (so \<^verbatim>\<open>n\<close> is \<open>length rd_z\<close>) together with \<open>rd_nAlloc\<close>; \<^verbatim>\<open>z\<close> is \<^verbatim>\<open>NULL\<close>
  as long as \<open>rd_nAlloc = 0\<close>.
\<close>

definition NUL :: char where
  "NUL = CHR 0x00"

definition char_at :: "string \<Rightarrow> nat \<Rightarrow> char option" where
  "char_at s i = (if i < length s then Some (s ! i) else if i = length s then Some NUL else None)"

record newick_reader =
  rd_nAlloc :: nat
  rd_cursor :: nat
  rd_ntip :: nat
  rd_nnode :: nat
  rd_z :: string
  rd_newick :: string
  rd_q :: "nat option"
  rd_p :: "nat option"
  rd_root :: "nat option"

definition PHY_OK :: int where
  "PHY_OK = 0"

definition PHY_ERR :: int where
  "PHY_ERR = 1"

subsection \<open>\<^verbatim>\<open>atof\<close>\<close>

text \<open>
  Modelled from the C standard: \<^verbatim>\<open>atof\<close> belongs to the C library, not to this repository.
  It converts the longest prefix of the form sign, digits, point, digits, exponent and
  yields 0 when there is no such prefix.  The reader only passes strings over the
  characters \<^verbatim>\<open>e - + 0..9 .\<close>
\<close>

definition is_digit :: "char \<Rightarrow> bool" where
  "is_digit c = (48 \<le> (of_char c :: nat) \<and> (of_char c :: nat) \<le> 57)"

definition digit_val :: "char \<Rightarrow> nat" where
  "digit_val c = (of_char c :: nat) - 48"

text \<open>Leading digits: their value (continuing \<open>acc\<close>), their number, and the rest.\<close>

fun take_digits :: "string \<Rightarrow> nat \<Rightarrow> nat \<Rightarrow> nat \<times> nat \<times> string" where
  "take_digits [] acc k = (acc, k, [])"
| "take_digits (c # cs) acc k =
     (if is_digit c then take_digits cs (10 * acc + digit_val c) (Suc k) else (acc, k, c # cs))"

definition take_sign :: "string \<Rightarrow> bool \<times> string" where
  "take_sign s =
     (case s of
        [] \<Rightarrow> (False, [])
      | c # cs \<Rightarrow> if c = CHR ''-'' then (True, cs) else if c = CHR ''+'' then (False, cs)
                  else (False, s))"

definition atof_exponent :: "string \<Rightarrow> int" where
  "atof_exponent s =
     (case s of
        [] \<Rightarrow> 0
      | c # cs \<Rightarrow>
          if c = CHR ''e'' then
            (let (neg, r) = take_sign cs; (e, k, _) = take_digits r 0 0
             in if k = 0 then 0 else if neg then - int e else int e)
          else 0)"

definition atof :: "string \<Rightarrow> real" where
  "atof s =
     (let (neg, s1) = take_sign s;
          (ip, ni, s2) = take_digits s1 0 0;
          (fp, nf, s3) = (case s2 of
                            [] \<Rightarrow> (0, 0, [])
                          | c # cs \<Rightarrow> if c = CHR ''.'' then take_digits cs 0 0 else (0, 0, s2))
      in if ni + nf = 0 then 0
         else
           let m = real ip + real fp / 10 ^ nf;
               e = atof_exponent s3;
               v = (if 0 \<le> e then m * 10 ^ nat e else m / 10 ^ nat (- e))
           in if neg then - v else v)"

subsection \<open>\<^verbatim>\<open>read_label\<close>, \<^verbatim>\<open>read_note\<close>, \<^verbatim>\<open>read_brlen\<close>\<close>

text \<open>
  \<^verbatim>\<open>if (n == nAlloc) { nAlloc += 100; realloc } z[n++] = c;\<close>
\<close>

definition push_z :: "newick_reader \<Rightarrow> char \<Rightarrow> newick_reader" where
  "push_z ctx c =
     (let ctx1 = (if length (rd_z ctx) = rd_nAlloc ctx
                  then ctx\<lparr> rd_nAlloc := rd_nAlloc ctx + 100 \<rparr> else ctx)
      in ctx1\<lparr> rd_z := rd_z ctx1 @ [c] \<rparr>)"

text \<open>
  \<^verbatim>\<open>z[n] = 0\<close> writes outside the block when \<^verbatim>\<open>n\<close> has reached \<^verbatim>\<open>nAlloc\<close> (in particular
  through a \<^verbatim>\<open>NULL\<close> \<^verbatim>\<open>z\<close> when nothing was ever pushed).
\<close>

definition terminate_z :: "newick_reader \<Rightarrow> newick_reader option" where
  "terminate_z ctx = (if length (rd_z ctx) < rd_nAlloc ctx then Some ctx else None)"

definition label_stop :: "char \<Rightarrow> bool" where
  "label_stop c = (c = CHR '':'' \<or> c = CHR '','' \<or> c = CHR '')'' \<or> c = CHR '';'' \<or> c = CHR ''['')"

definition label_bad :: "char \<Rightarrow> bool" where
  "label_bad c = (c = CHR '' '' \<or> c = CHR 0x0A \<or> c = CHR 0x0D \<or> c = CHR 0x0B \<or> c = CHR 0x09
     \<or> c = CHR 0x0C \<or> c = CHR ''('' \<or> c = CHR '']'')"

text \<open>The part of \<^verbatim>\<open>read_label\<close> after its loop.\<close>

definition read_label_end :: "store \<Rightarrow> newick_reader \<Rightarrow> (store \<times> newick_reader \<times> int) option" where
  "read_label_end s ctx =
     do {
       ctx1 \<leftarrow> terminate_z ctx;
       p \<leftarrow> rd_p ctx1;
       let s1 = (if rd_z ctx1 \<noteq> [] then s\<lparr> heap := set_lab (heap s) p (Some (rd_z ctx1)) \<rparr> else s);
       Some (s1, ctx1\<lparr> rd_z := [] \<rparr>, PHY_OK)
     }"

fun read_label :: "nat \<Rightarrow> store \<Rightarrow> newick_reader \<Rightarrow> (store \<times> newick_reader \<times> int) option" where
  "read_label 0 s ctx = None"
| "read_label (Suc fuel) s ctx =
     do {
       c \<leftarrow> char_at (rd_newick ctx) (rd_cursor ctx);
       let ctx1 = ctx\<lparr> rd_cursor := rd_cursor ctx + 1 \<rparr>;
       if label_stop c then read_label_end s (ctx1\<lparr> rd_cursor := rd_cursor ctx1 - 1 \<rparr>)
       else if label_bad c then Some (s\<lparr> phy_errno := 2 \<rparr>, ctx1, PHY_ERR)
       else if c = NUL then Some (s\<lparr> phy_errno := 4 \<rparr>, ctx1, PHY_ERR)
       else read_label fuel s (push_z ctx1 c)
     }"

text \<open>
  The loop of \<^verbatim>\<open>read_note\<close>, \<^verbatim>\<open>while ((c = newick[cursor++]), opened > 0)\<close>: the byte is
  read and the cursor advanced before \<^verbatim>\<open>opened\<close> is tested, also on the last round.
\<close>

fun read_note_loop ::
  "nat \<Rightarrow> store \<Rightarrow> newick_reader \<Rightarrow> int \<Rightarrow> (store \<times> newick_reader \<times> bool) option" where
  "read_note_loop 0 s ctx opened = None"
| "read_note_loop (Suc fuel) s ctx opened =
     do {
       c \<leftarrow> char_at (rd_newick ctx) (rd_cursor ctx);
       let ctx1 = ctx\<lparr> rd_cursor := rd_cursor ctx + 1 \<rparr>;
       if opened > 0 then
         if c = NUL then Some (s\<lparr> phy_errno := 4 \<rparr>, ctx1, False)
         else
           let opened1 = (if c = CHR ''['' then opened + 1
                          else if c = CHR '']'' then opened - 1 else opened);
               ctx2 = (if opened1 \<noteq> 0 then push_z ctx1 c else ctx1)
           in read_note_loop fuel s ctx2 opened1
       else Some (s, ctx1, True)
     }"

definition read_note :: "nat \<Rightarrow> store \<Rightarrow> newick_reader \<Rightarrow> (store \<times> newick_reader \<times> int) option" where
  "read_note fuel s ctx =
     do {
       c \<leftarrow> char_at (rd_newick ctx) (rd_cursor ctx);
       let ctx1 = ctx\<lparr> rd_cursor := rd_cursor ctx + 1 \<rparr>;
       if c = CHR ''['' then
         do {
           (s1, ctx2, ok) \<leftarrow> read_note_loop fuel s ctx1 1;
           if \<not> ok then Some (s1, ctx2, PHY_ERR)
           else
             do {
               ctx3 \<leftarrow> terminate_z ctx2;
               p \<leftarrow> rd_p ctx3;
               let s2 = (if rd_z ctx3 \<noteq> []
                         then s1\<lparr> heap := set_note (heap s1) p (Some (rd_z ctx3)) \<rparr> else s1);
               Some (s2, ctx3\<lparr> rd_z := [] \<rparr>, PHY_OK)
             }
         }
       else Some (s, ctx1\<lparr> rd_cursor := rd_cursor ctx1 - 1 \<rparr>, PHY_OK)
     }"

definition brlen_char :: "char \<Rightarrow> bool" where
  "brlen_char c = (c = CHR ''e'' \<or> c = CHR ''-'' \<or> c = CHR ''+'' \<or> is_digit c \<or> c = CHR ''.'')"

definition brlen_stop :: "char \<Rightarrow> bool" where
  "brlen_stop c = (c = CHR '','' \<or> c = CHR '')'' \<or> c = CHR '';'')"

fun read_brlen_loop ::
  "nat \<Rightarrow> store \<Rightarrow> newick_reader \<Rightarrow> (store \<times> newick_reader \<times> bool) option" where
  "read_brlen_loop 0 s ctx = None"
| "read_brlen_loop (Suc fuel) s ctx =
     do {
       c \<leftarrow> char_at (rd_newick ctx) (rd_cursor ctx);
       let ctx1 = ctx\<lparr> rd_cursor := rd_cursor ctx + 1 \<rparr>;
       if brlen_char c then read_brlen_loop fuel s (push_z ctx1 c)
       else if brlen_stop c then Some (s, ctx1\<lparr> rd_cursor := rd_cursor ctx1 - 1 \<rparr>, True)
       else if c = NUL then Some (s\<lparr> phy_errno := 4 \<rparr>, ctx1, False)
       else Some (s\<lparr> phy_errno := 2 \<rparr>, ctx1, False)
     }"

definition read_brlen :: "nat \<Rightarrow> store \<Rightarrow> newick_reader \<Rightarrow> (store \<times> newick_reader \<times> int) option" where
  "read_brlen fuel s ctx =
     do {
       c \<leftarrow> char_at (rd_newick ctx) (rd_cursor ctx);
       let ctx1 = ctx\<lparr> rd_cursor := rd_cursor ctx + 1 \<rparr>;
       (s1, ctx2, ok) \<leftarrow>
         (if c = CHR '':'' then read_brlen_loop fuel s ctx1
          else Some (s, ctx1\<lparr> rd_cursor := rd_cursor ctx1 - 1 \<rparr>, True));
       if \<not> ok then Some (s1, ctx2, PHY_ERR)
       else
         do {
           ctx3 \<leftarrow> terminate_z ctx2;
           p \<leftarrow> rd_p ctx3;
           let s2 = (if rd_z ctx3 \<noteq> []
                     then s1\<lparr> heap := set_brlen (heap s1) p (atof (rd_z ctx3)) \<rparr> else s1);
           Some (s2, ctx3\<lparr> rd_z := [] \<rparr>, PHY_OK)
         }
     }"

subsection \<open>\<^verbatim>\<open>read_newick\<close>\<close>

text \<open>The result is the store, the reader and the returned pointer (\<^verbatim>\<open>NULL\<close> on error).\<close>

definition read_newick_end ::
  "store \<Rightarrow> newick_reader \<Rightarrow> (store \<times> newick_reader \<times> nat option) option" where
  "read_newick_end s ctx =
     do {
       p \<leftarrow> rd_p ctx;
       if ndesc (heap s p) < 2 then Some (s\<lparr> phy_errno := 3 \<rparr>, ctx, None)
       else Some (s, ctx, Some p)
     }"

fun read_newick_loop ::
  "nat \<Rightarrow> store \<Rightarrow> newick_reader \<Rightarrow> (store \<times> newick_reader \<times> nat option) option" where
  "read_newick_loop 0 s ctx = None"
| "read_newick_loop (Suc fuel) s ctx =
     do {
       c \<leftarrow> char_at (rd_newick ctx) (rd_cursor ctx);
       let ctx1 = ctx\<lparr> rd_cursor := rd_cursor ctx + 1 \<rparr>;
       if c = CHR '';'' then read_newick_end s ctx1
       else if c = CHR ''('' then
         do {
           c2 \<leftarrow> (if rd_cursor ctx1 > 1 then char_at (rd_newick ctx1) (rd_cursor ctx1 - 2)
                  else Some NUL);
           if rd_cursor ctx1 > 1 \<and> \<not> (c2 = CHR '','' \<or> c2 = CHR ''('')
           then Some (s\<lparr> phy_errno := 4 \<rparr>, ctx1, None)
           else
             do {
               let ctx2 = ctx1\<lparr> rd_nnode := rd_nnode ctx1 + 1 \<rparr>;
               let (s1, q) = node_new s;
               let ctx3 = ctx2\<lparr> rd_q := Some q \<rparr>;
               p \<leftarrow> rd_p ctx3;
               h \<leftarrow> phy_node_add_child fuel (heap s1) p q;
               read_newick_loop fuel (s1\<lparr> heap := h \<rparr>) (ctx3\<lparr> rd_p := Some q \<rparr>)
             }
         }
       else if c = CHR '','' then
         do {
           let ctx2 = ctx1\<lparr> rd_nnode := rd_nnode ctx1 + 1 \<rparr>;
           p \<leftarrow> rd_p ctx2;
           if anc (heap s p) = None \<and> Some p \<noteq> rd_root ctx2
           then Some (s\<lparr> phy_errno := 4 \<rparr>, ctx2, None)
           else if Some p = rd_root ctx2
           then Some (s\<lparr> phy_errno := 4 \<rparr>, ctx2, None)
           else
             do {
               let (s1, q) = node_new s;
               let ctx3 = ctx2\<lparr> rd_q := Some q \<rparr>;
               pa \<leftarrow> anc (heap s1 p);
               h \<leftarrow> phy_node_add_child fuel (heap s1) pa q;
               let ctx4 = (if ndesc (h p) = 0 then ctx3\<lparr> rd_ntip := rd_ntip ctx3 + 1 \<rparr> else ctx3);
               read_newick_loop fuel (s1\<lparr> heap := h \<rparr>) (ctx4\<lparr> rd_p := Some q \<rparr>)
             }
         }
       else if c = CHR '')'' then
         do {
           p \<leftarrow> rd_p ctx1;
           let ctx2 = (if ndesc (heap s p) = 0 then ctx1\<lparr> rd_ntip := rd_ntip ctx1 + 1 \<rparr> else ctx1);
           if anc (heap s p) = None \<and> Some p \<noteq> rd_root ctx2
           then Some (s\<lparr> phy_errno := 4 \<rparr>, ctx2, None)
           else if Some p = rd_root ctx2
           then Some (s\<lparr> phy_errno := 4 \<rparr>, ctx2, None)
           else
             do {
               pa \<leftarrow> anc (heap s p);
               let ctx3 = ctx2\<lparr> rd_p := Some pa \<rparr>;
               if ndesc (heap s pa) < 2 then Some (s\<lparr> phy_errno := 3 \<rparr>, ctx3, None)
               else read_newick_loop fuel s ctx3
             }
         }
       else
         do {
           let ctx2 = ctx1\<lparr> rd_cursor := rd_cursor ctx1 - 1 \<rparr>;
           (s1, ctx3, r1) \<leftarrow> read_label fuel s ctx2;
           if r1 \<noteq> 0 then Some (s1, ctx3, None)
           else
             do {
               (s2, ctx4, r2) \<leftarrow> read_note fuel s1 ctx3;
               if r2 \<noteq> 0 then Some (s2, ctx4, None)
               else
                 do {
                   (s3, ctx5, r3) \<leftarrow> read_brlen fuel s2 ctx4;
                   if r3 \<noteq> 0 then Some (s3, ctx5, None)
                   else read_newick_loop fuel s3 ctx5
                 }
             }
         }
     }"

definition read_newick ::
  "nat \<Rightarrow> store \<Rightarrow> newick_reader \<Rightarrow> (store \<times> newick_reader \<times> nat option) option" where
  "read_newick fuel s ctx =
     (if rd_newick ctx = [] then None
      else if last (rd_newick ctx) \<noteq> CHR '';'' then Some (s\<lparr> phy_errno := 4 \<rparr>, ctx, None)
      else
        let ctx1 = ctx\<lparr> rd_nnode := rd_nnode ctx + 1 \<rparr>;
            (s1, r) = node_new s;
            ctx2 = ctx1\<lparr> rd_root := Some r \<rparr>;
            ctx3 = ctx2\<lparr> rd_p := rd_root ctx2 \<rparr>
        in read_newick_loop fuel s1 ctx3)"

text \<open>The initialiser \<^verbatim>\<open>{0, 0, 0, 0, 0, 0, newick, 0, 0, 0}\<close> of \<^verbatim>\<open>phy_read_newickstr\<close>.\<close>

definition reader_init :: "string \<Rightarrow> newick_reader" where
  "reader_init s = \<lparr> rd_nAlloc = 0, rd_cursor = 0, rd_ntip = 0, rd_nnode = 0, rd_z = [],
     rd_newick = s, rd_q = None, rd_p = None, rd_root = None \<rparr>"


section \<open>The Newick writer\<close>

text \<open>
  The \<^verbatim>\<open>newick_writer\<close> is modelled by the string written so far; \<^verbatim>\<open>write_chars\<close> appends
  to it (the growth of the block in steps of 100 bytes is not modelled).
\<close>

definition write_chars :: "string \<Rightarrow> string \<Rightarrow> string" where
  "write_chars z out = out @ z"

subsection \<open>\<^verbatim>\<open>sprintf(brlen, ":%f", p->brlen)\<close>\<close>

text \<open>
  Modelled from the C standard: \<^verbatim>\<open>sprintf\<close> belongs to the C library.  \<^verbatim>\<open>%f\<close> prints the
  value rounded to six decimals (ties to even), the integer part in decimal without
  leading zeros.  Only called on values greater than 0.
\<close>

definition round_half_even :: "real \<Rightarrow> int" where
  "round_half_even x =
     (let f = floor x
      in if x - of_int f < 1 / 2 then f
         else if x - of_int f > 1 / 2 then f + 1
         else if even f then f else f + 1)"

definition digit_char :: "nat \<Rightarrow> char" where
  "digit_char d = ''0123456789'' ! d"

fun dec_digits :: "nat \<Rightarrow> nat \<Rightarrow> string" where
  "dec_digits 0 n = []"
| "dec_digits (Suc k) n = dec_digits k (n div 10) @ [digit_char (n mod 10)]"

text \<open>The number of decimal digits of \<open>n\<close> (1 for 0), found among the first \<open>k\<close> candidates.\<close>

fun num_digits :: "nat \<Rightarrow> nat \<Rightarrow> nat" where
  "num_digits 0 n = 1"
| "num_digits (Suc k) n = (if n < 10 then 1 else Suc (num_digits k (n div 10)))"

definition show_nat :: "nat \<Rightarrow> string" where
  "show_nat n = dec_digits (num_digits n n) n"

definition format_f :: "real \<Rightarrow> string" where
  "format_f x =
     (let n = nat (round_half_even (x * 1000000))
      in show_nat (n div 1000000) @ ''.'' @ dec_digits 6 (n mod 1000000))"

text \<open>
  \<^verbatim>\<open>char brlen[25]\<close>: a text of more than 24 characters overruns the array.
\<close>

definition write_brlen :: "heap \<Rightarrow> nat \<Rightarrow> string \<Rightarrow> string option" where
  "write_brlen h p out =
     (if brlen (h p) > 0 then
        let z = CHR '':'' # format_f (brlen (h p))
        in if length z < 25 then Some (write_chars z out) else None
      else Some out)"

definition write_label :: "heap \<Rightarrow> nat \<Rightarrow> string \<Rightarrow> string" where
  "write_label h p out =
     (case lab (h p) of
        None \<Rightarrow> out
      | Some l \<Rightarrow> if length l > 0 then write_chars l out else out)"

definition write_note :: "heap \<Rightarrow> nat \<Rightarrow> string \<Rightarrow> string" where
  "write_note h p out =
     (case note (h p) of
        None \<Rightarrow> out
      | Some l \<Rightarrow> if length l > 0 then write_chars l out else out)"

text \<open>
  \<^verbatim>\<open>write_newick\<close> and its loop \<^verbatim>\<open>for (d = node->lfdesc; d != 0; d = d->next)\<close>.
\<close>

fun write_newick :: "nat \<Rightarrow> heap \<Rightarrow> nat \<Rightarrow> string \<Rightarrow> string option"
  and write_desc :: "nat \<Rightarrow> heap \<Rightarrow> nat \<Rightarrow> nat option \<Rightarrow> string \<Rightarrow> string option" where
  "write_newick 0 h node out = None"
| "write_newick (Suc fuel) h node out =
     do {
       out1 \<leftarrow>
         (if ndesc (h node) \<noteq> 0 then
            do {
              o1 \<leftarrow> write_desc fuel h node (lfdesc (h node)) out;
              Some (write_chars '')'' o1)
            }
          else Some out);
       write_brlen h node (write_note h node (write_label h node out1))
     }"
| "write_desc 0 h node d out = None"
| "write_desc (Suc fuel) h node None out = Some out"
| "write_desc (Suc fuel) h node (Some d) out =
     do {
       let o1 = (if Some d = lfdesc (h node) then write_chars ''('' out else out);
       o2 \<leftarrow> write_newick fuel h d o1;
       let o3 = (if next (h d) \<noteq> None then write_chars '','' o2 else o2);
       write_desc fuel h node (next (h d)) o3
     }"

section \<open>The tree container\<close>

text \<open>
  \<^verbatim>\<open>struct phy\<close> without its embedded cursor (cursors are values of their own below).
  The arrays are lists; an entry that was never written is \<^verbatim>\<open>NULL\<close>, respectively 0.
\<close>

record phy =
  ntip :: int
  nnode :: int
  root :: "nat option"
  nodes :: "nat option list"
  inodes :: "nat option list"
  vseq :: "int list"

definition arr_get :: "'a list \<Rightarrow> int \<Rightarrow> 'a option" where
  "arr_get xs i = (if 0 \<le> i \<and> i < int (length xs) then Some (xs ! nat i) else None)"

definition arr_set :: "'a list \<Rightarrow> int \<Rightarrow> 'a \<Rightarrow> 'a list option" where
  "arr_set xs i v = (if 0 \<le> i \<and> i < int (length xs) then Some (xs[nat i := v]) else None)"

subsection \<open>\<^verbatim>\<open>phy_build\<close>\<close>

text \<open>
  \<^verbatim>\<open>while (p->anc != 0 && p->next == 0) { p = p->anc; p->lastvisit = q; }\<close>
\<close>

fun climb :: "nat \<Rightarrow> heap \<Rightarrow> nat \<Rightarrow> nat \<Rightarrow> (heap \<times> nat) option" where
  "climb 0 h p q = None"
| "climb (Suc fuel) h p q =
     (case anc (h p) of
        None \<Rightarrow> Some (h, p)
      | Some pa \<Rightarrow>
          if next (h p) = None then climb fuel (set_lastvisit h pa (Some q)) pa q
          else Some (h, p))"

text \<open>The state of the indexing loop: the heap, the tree under construction, \<open>i\<close>, \<open>j\<close>, \<open>k\<close>.\<close>

record build_state =
  b_heap :: heap
  b_phy :: phy
  b_i :: int
  b_j :: int
  b_k :: int

text \<open>The loop body up to and including \<^verbatim>\<open>phy->vseq[p->index] = i++\<close>.\<close>

definition build_visit :: "build_state \<Rightarrow> nat \<Rightarrow> build_state option" where
  "build_visit b p =
     do {
       ns \<leftarrow> arr_set (nodes (b_phy b)) (b_i b) (Some p);
       let b1 = b\<lparr> b_phy := (b_phy b)\<lparr> nodes := ns \<rparr> \<rparr>;
       b2 \<leftarrow>
         (if ndesc (b_heap b1 p) \<noteq> 0 then
            do {
              let h = set_index (b_heap b1) p (ntip (b_phy b1) + b_j b1);
              ins \<leftarrow> arr_set (inodes (b_phy b1)) (b_j b1) (Some p);
              Some (b1\<lparr> b_heap := h, b_phy := (b_phy b1)\<lparr> inodes := ins \<rparr>, b_j := b_j b1 + 1 \<rparr>)
            }
          else
            Some (b1\<lparr> b_heap := set_index (b_heap b1) p (b_k b1), b_k := b_k b1 + 1 \<rparr>));
       vs \<leftarrow> arr_set (vseq (b_phy b2)) (index (b_heap b2 p)) (b_i b2);
       Some (b2\<lparr> b_phy := (b_phy b2)\<lparr> vseq := vs \<rparr>, b_i := b_i b2 + 1 \<rparr>)
     }"

text \<open>The rest of the loop body: the move to the next node in preorder.\<close>

definition build_advance :: "nat \<Rightarrow> heap \<Rightarrow> nat \<Rightarrow> (heap \<times> nat option) option" where
  "build_advance fuel h p =
     (if lfdesc (h p) \<noteq> None then Some (h, lfdesc (h p))
      else if next (h p) \<noteq> None then Some (h, next (h p))
      else
        do {
          (h1, p1) \<leftarrow> climb fuel h p p;
          Some (h1, next (h1 p1))
        })"

text \<open>
  \<^verbatim>\<open>while (p) { ... }\<close>; \<open>cf\<close> is the fuel of each inner loop.
\<close>

fun build_loop :: "nat \<Rightarrow> nat \<Rightarrow> build_state \<Rightarrow> nat option \<Rightarrow> build_state option" where
  "build_loop cf fuel b None = Some b"
| "build_loop cf 0 b (Some p) = None"
| "build_loop cf (Suc fuel) b (Some p) =
     do {
       b1 \<leftarrow> build_visit b p;
       (h, p1) \<leftarrow> build_advance cf (b_heap b1) p;
       build_loop cf fuel (b1\<lparr> b_heap := h \<rparr>) p1
     }"

text \<open>
  \<^verbatim>\<open>struct phy *phy_build(struct phy_node *root, int nnode, int ntip)\<close>: the new heap
  and the tree.
\<close>

definition phy_build :: "nat \<Rightarrow> heap \<Rightarrow> nat option \<Rightarrow> int \<Rightarrow> int \<Rightarrow> (heap \<times> phy) option" where
  "phy_build fuel h rt nn nt =
     do {
       let ph = \<lparr> ntip = nt, nnode = nn, root = rt,
                  nodes = replicate (nat nn) None,
                  inodes = replicate (nat (nn - nt)) None,
                  vseq = replicate (nat nn) 0 \<rparr>;
       b \<leftarrow> build_loop fuel fuel \<lparr> b_heap = h, b_phy = ph, b_i = 0, b_j = 0, b_k = 0 \<rparr> rt;
       Some (b_heap b, b_phy b)
     }"

text \<open>
  \<^verbatim>\<open>cleanup(root)\<close>, called on the error path of \<^verbatim>\<open>phy_read_newickstr\<close>.  With a \<^verbatim>\<open>NULL\<close>
  root its loop is not entered.  With any other root the walk ends in the branch of a
  node without descendant and next sibling, whose last statements include
  \<^verbatim>\<open>free(r->note)\<close>, where \<^verbatim>\<open>r\<close> is either uninitialised or was set to 0 by the loop over
  the previous siblings: the function does not return normally.
\<close>

definition cleanup :: "nat option \<Rightarrow> unit option" where
  "cleanup rt = (case rt of None \<Rightarrow> Some () | Some r \<Rightarrow> None)"

text \<open>
  \<^verbatim>\<open>phy_read_newickstr\<close>: the store and the tree (\<^verbatim>\<open>NULL\<close> on error).
\<close>

definition phy_read_newickstr :: "nat \<Rightarrow> store \<Rightarrow> string \<Rightarrow> (store \<times> phy option) option" where
  "phy_read_newickstr fuel s newick =
     do {
       (s1, ctx, rt) \<leftarrow> read_newick fuel s (reader_init newick);
       (case rt of
          None \<Rightarrow> do { _ \<leftarrow> cleanup (rd_root ctx); Some (s1, None) }
        | Some r \<Rightarrow>
            do {
              (h, ph) \<leftarrow> phy_build fuel (heap s1) (Some r) (int (rd_nnode ctx)) (int (rd_ntip ctx));
              Some (s1\<lparr> heap := h \<rparr>, Some ph)
            })
     }"

definition phy_write_newickstr :: "nat \<Rightarrow> heap \<Rightarrow> phy \<Rightarrow> string option" where
  "phy_write_newickstr fuel h ph =
     do {
       r \<leftarrow> root ph;
       out \<leftarrow> write_newick fuel h r [];
       Some (write_chars '';'' out)
     }"

definition phy_duplicate :: "nat \<Rightarrow> store \<Rightarrow> phy \<Rightarrow> (store \<times> phy option) option" where
  "phy_duplicate fuel s ph =
     do {
       newick \<leftarrow> phy_write_newickstr fuel (heap s) ph;
       phy_read_newickstr fuel s newick
     }"


section \<open>Traversal cursors\<close>

text \<open>
  \<^verbatim>\<open>struct phy_cursor\<close> without its back pointer to the tree, which is passed to
  \<open>phy_cursor_step\<close> instead.
\<close>

record phy_cursor =
  c_visit :: int
  c_order :: int
  c_cursor :: int
  c_begin :: "nat option"
  c_end :: "nat option"
  c_next :: "nat option"

definition PREORDER :: int where
  "PREORDER = 0"

definition POSTORDER :: int where
  "POSTORDER = 1"

definition ALL_NODES :: int where
  "ALL_NODES = 0"

definition INTERNAL_NODES_ONLY :: int where
  "INTERNAL_NODES_ONLY = 1"

text \<open>
  \<^verbatim>\<open>for (p = q = first; q; q = q->next) { if (q->ndesc) p = q; }\<close>, started with
  \<open>q = p = first\<close>; the result is \<open>p\<close>.
\<close>

fun scan_siblings :: "nat \<Rightarrow> heap \<Rightarrow> nat option \<Rightarrow> nat option \<Rightarrow> nat option option" where
  "scan_siblings 0 h q p = None"
| "scan_siblings (Suc fuel) h None p = Some p"
| "scan_siblings (Suc fuel) h (Some q) p =
     scan_siblings fuel h (next (h q)) (if ndesc (h q) \<noteq> 0 then Some q else p)"

text \<open>\<^verbatim>\<open>x->lastvisit->anc->lfdesc\<close>\<close>

definition lastvisit_anc_lfdesc :: "heap \<Rightarrow> nat \<Rightarrow> nat option option" where
  "lastvisit_anc_lfdesc h x =
     do {
       lv \<leftarrow> lastvisit (h x);
       a \<leftarrow> anc (h lv);
       Some (lfdesc (h a))
     }"

text \<open>
  \<^verbatim>\<open>while (p->ndesc) { for (p = q = p->lastvisit->anc->lfdesc; q; q = q->next) ... }\<close>
\<close>

fun descend_internal :: "nat \<Rightarrow> nat \<Rightarrow> heap \<Rightarrow> nat option \<Rightarrow> nat option" where
  "descend_internal cf 0 h p = None"
| "descend_internal cf (Suc fuel) h p =
     do {
       pa \<leftarrow> p;
       if ndesc (h pa) \<noteq> 0 then
         do {
           first \<leftarrow> lastvisit_anc_lfdesc h pa;
           p1 \<leftarrow> scan_siblings cf h first first;
           descend_internal cf fuel h p1
         }
       else Some pa
     }"

text \<open>
  The computation of the last internal node in preorder below \<open>node\<close>, shared by both
  directions: \<^verbatim>\<open>phy->inodes[p->anc->index - phy->ntip]\<close> after the two loops.
\<close>

definition last_internal :: "nat \<Rightarrow> heap \<Rightarrow> phy \<Rightarrow> nat \<Rightarrow> nat option option" where
  "last_internal fuel h ph node =
     do {
       first \<leftarrow> lastvisit_anc_lfdesc h node;
       p0 \<leftarrow> scan_siblings fuel h first first;
       p \<leftarrow> descend_internal fuel fuel h p0;
       pa \<leftarrow> anc (h p);
       arr_get (inodes ph) (index (h pa) - ntip ph)
     }"

text \<open>\<^verbatim>\<open>phy->nodes[phy->vseq[node->lastvisit->index]]\<close>\<close>

definition last_node :: "heap \<Rightarrow> phy \<Rightarrow> nat \<Rightarrow> nat option option" where
  "last_node h ph node =
     do {
       lv \<leftarrow> lastvisit (h node);
       v \<leftarrow> arr_get (vseq ph) (index (h lv));
       arr_get (nodes ph) v
     }"

definition phy_cursor_prepare_v2 ::
  "nat \<Rightarrow> heap \<Rightarrow> phy \<Rightarrow> nat \<Rightarrow> phy_cursor \<Rightarrow> int \<Rightarrow> int \<Rightarrow> phy_cursor option" where
  "phy_cursor_prepare_v2 fuel h ph node c0 visit order =
     (let c = c0\<lparr> c_visit := visit, c_order := order \<rparr>
      in if order = PREORDER then
           do {
             let c1 = c\<lparr> c_begin := Some node, c_next := Some node \<rparr>;
             c2 \<leftarrow>
               (if ndesc (h node) \<noteq> 0 then
                  if visit = ALL_NODES then
                    do { e \<leftarrow> last_node h ph node; Some (c1\<lparr> c_end := e \<rparr>) }
                  else
                    do { e \<leftarrow> last_internal fuel h ph node; Some (c1\<lparr> c_end := e \<rparr>) }
                else Some (c1\<lparr> c_end := Some node \<rparr>));
             if ndesc (h node) \<noteq> 0 then
               if visit = ALL_NODES then
                 do {
                   v \<leftarrow> arr_get (vseq ph) (index (h node));
                   Some (c2\<lparr> c_cursor := v + 1 \<rparr>)
                 }
               else Some (c2\<lparr> c_cursor := index (h node) - ntip ph + 1 \<rparr>)
             else Some c2
           }
         else
           do {
             let c1 = c\<lparr> c_end := Some node \<rparr>;
             c2 \<leftarrow>
               (if ndesc (h node) \<noteq> 0 then
                  if visit = ALL_NODES then
                    do { e \<leftarrow> last_node h ph node; Some (c1\<lparr> c_begin := e \<rparr>) }
                  else
                    do { e \<leftarrow> last_internal fuel h ph node; Some (c1\<lparr> c_begin := e \<rparr>) }
                else Some (c1\<lparr> c_begin := Some node \<rparr>));
             let c3 = c2\<lparr> c_next := c_begin c2 \<rparr>;
             if ndesc (h node) \<noteq> 0 then
               do {
                 bg \<leftarrow> c_begin c3;
                 if visit = ALL_NODES then
                   do {
                     v \<leftarrow> arr_get (vseq ph) (index (h bg));
                     Some (c3\<lparr> c_cursor := v - 1 \<rparr>)
                   }
                 else Some (c3\<lparr> c_cursor := index (h bg) - ntip ph - 1 \<rparr>)
               }
             else Some c3
           })"

text \<open>
  \<^verbatim>\<open>phy_cursor_step\<close> on a non-\<^verbatim>\<open>NULL\<close> cursor: the new cursor and the returned node.
\<close>

definition phy_cursor_step :: "phy \<Rightarrow> phy_cursor \<Rightarrow> (phy_cursor \<times> nat option) option" where
  "phy_cursor_step ph c =
     (case c_next c of
        None \<Rightarrow> Some (c, None)
      | Some node \<Rightarrow>
          if Some node \<noteq> c_end c then
            do {
              nx \<leftarrow> arr_get (if c_visit c = ALL_NODES then nodes ph else inodes ph) (c_cursor c);
              Some (c\<lparr> c_next := nx,
                      c_cursor := (if c_order c = PREORDER then c_cursor c + 1 else c_cursor c - 1) \<rparr>,
                    Some node)
            }
          else Some (c\<lparr> c_begin := None, c_end := None, c_next := None \<rparr>, Some node))"

text \<open>The nodes returned by \<open>n\<close> successive calls of \<^verbatim>\<open>phy_cursor_step\<close>.\<close>

fun cursor_steps :: "nat \<Rightarrow> phy \<Rightarrow> phy_cursor \<Rightarrow> (nat option list) option" where
  "cursor_steps 0 ph c = Some []"
| "cursor_steps (Suc n) ph c =
     do {
       (c1, r) \<leftarrow> phy_cursor_step ph c;
       rs \<leftarrow> cursor_steps n ph c1;
       Some (r # rs)
     }"

text \<open>A cursor as \<^verbatim>\<open>phy_cursor_alloc\<close> leaves it; the field values are arbitrary.\<close>

definition cursor_init :: phy_cursor where
  "cursor_init = \<lparr> c_visit = 0, c_order = 0, c_cursor = 0, c_begin = None, c_end = None,
     c_next = None \<rparr>"

section \<open>Structural algorithms\<close>

definition phy_isrooted :: "heap \<Rightarrow> phy \<Rightarrow> int option" where
  "phy_isrooted h ph = do { r \<leftarrow> root ph; Some (if ndesc (h r) > 2 then 0 else 1) }"

text \<open>
  \<^verbatim>\<open>phy_unroot(in, out)\<close>: the store and the tree stored in \<^verbatim>\<open>*out\<close> (\<^verbatim>\<open>NULL\<close> is \<open>None\<close>).
  The calls of \<^verbatim>\<open>phy_free\<close> are not modelled: in the C code the final \<^verbatim>\<open>phy_free(phy)\<close>
  releases the nodes of the duplicate, which are the nodes \<^verbatim>\<open>*out\<close> was built from, so
  the tree returned by the second branch is only meaningful up to that call.
\<close>

definition phy_unroot :: "nat \<Rightarrow> store \<Rightarrow> phy \<Rightarrow> (store \<times> phy option) option" where
  "phy_unroot fuel s ph_in =
     do {
       isrooted \<leftarrow> phy_isrooted (heap s) ph_in;
       if isrooted \<noteq> 0 then Some (s, None)
       else
         do {
           (s1, dup) \<leftarrow> phy_duplicate fuel s ph_in;
           ph \<leftarrow> dup;
           r \<leftarrow> root ph;
           let (h1, po) = phy_node_prune (heap s1) (Some r) (lfdesc (heap s1 r));
           l \<leftarrow> lfdesc (h1 r);
           let (h2, qo) = phy_node_prune h1 (Some r) (next (h1 l));
           q \<leftarrow> qo;
           p \<leftarrow> po;
           let h3 = set_brlen h2 q (brlen (h2 q) + brlen (h2 p));
           let h4 = set_brlen h3 p 0;
           h5 \<leftarrow> phy_node_add_child fuel h4 p q;
           (h6, out) \<leftarrow> phy_build fuel h5 (Some p) (nnode ph - 1) (ntip ph);
           Some (s1\<lparr> heap := h6 \<rparr>, Some out)
         }
     }"

text \<open>
  \<^verbatim>\<open>phy_node_mrca\<close>: \<open>gotcha\<close> is the zeroed array of \<^verbatim>\<open>phy->nnode\<close> flags.
\<close>

fun mark_ancestors :: "nat \<Rightarrow> heap \<Rightarrow> nat \<Rightarrow> int list \<Rightarrow> int list option" where
  "mark_ancestors 0 h a gotcha = None"
| "mark_ancestors (Suc fuel) h a gotcha =
     (case anc (h a) of
        None \<Rightarrow> Some gotcha
      | Some a1 \<Rightarrow>
          do {
            g \<leftarrow> arr_set gotcha (index (h a1)) 1;
            mark_ancestors fuel h a1 g
          })"

fun first_marked :: "nat \<Rightarrow> heap \<Rightarrow> nat option \<Rightarrow> int list \<Rightarrow> nat option option" where
  "first_marked 0 h b gotcha = None"
| "first_marked (Suc fuel) h None gotcha = Some None"
| "first_marked (Suc fuel) h (Some b) gotcha =
     do {
       m \<leftarrow> arr_get gotcha (index (h b));
       if m = 0 then first_marked fuel h (anc (h b)) gotcha else Some (Some b)
     }"

definition phy_node_mrca :: "nat \<Rightarrow> heap \<Rightarrow> phy \<Rightarrow> nat \<Rightarrow> nat \<Rightarrow> nat option option" where
  "phy_node_mrca fuel h ph a b =
     (if a = b then Some (Some a)
      else
        do {
          gotcha \<leftarrow> mark_ancestors fuel h a (replicate (nat (nnode ph)) 0);
          first_marked fuel h (Some b) gotcha
        })"

subsection \<open>\<^verbatim>\<open>phy_extract_subtree\<close>\<close>

text \<open>
  \<^verbatim>\<open>while ((p = p->anc) != 0) { if (bitmask[p->index]) break; bitmask[p->index] = 1; }\<close>
\<close>

fun mark_path :: "nat \<Rightarrow> heap \<Rightarrow> int list \<Rightarrow> nat \<Rightarrow> int list option" where
  "mark_path 0 h bm p = None"
| "mark_path (Suc fuel) h bm p =
     (case anc (h p) of
        None \<Rightarrow> Some bm
      | Some a \<Rightarrow>
          do {
            b \<leftarrow> arr_get bm (index (h a));
            if b \<noteq> 0 then Some bm
            else do { bm1 \<leftarrow> arr_set bm (index (h a)) 1; mark_path fuel h bm1 a }
          })"

text \<open>
  \<^verbatim>\<open>int bitmask[phy->nnode]\<close>, zeroed, and the loop
  \<^verbatim>\<open>for (i = 0; i < ntip; ++i) { p = tips[i]; bitmask[p->index] = 1; ... }\<close>.
\<close>

definition mark_tips :: "nat \<Rightarrow> heap \<Rightarrow> int \<Rightarrow> nat option list \<Rightarrow> phy \<Rightarrow> int list option" where
  "mark_tips fuel h nt tips ph =
     fold (\<lambda>i r. do {
                    bm \<leftarrow> r;
                    t \<leftarrow> arr_get tips (int i);
                    p \<leftarrow> t;
                    bm1 \<leftarrow> arr_set bm (index (h p)) 1;
                    mark_path fuel h bm1 p
                  })
       [0 ..< nat nt] (Some (replicate (nat (nnode ph)) 0))"

text \<open>The state of the copying loop: the store, \<^verbatim>\<open>root\<close>, \<^verbatim>\<open>head\<close> and \<^verbatim>\<open>nnode\<close>.\<close>

record extract_state =
  e_store :: store
  e_root :: "nat option"
  e_head :: "nat option"
  e_nnode :: int

text \<open>The two branches that copy the node \<open>p\<close> when it is marked.\<close>

definition extract_copy :: "nat \<Rightarrow> int list \<Rightarrow> extract_state \<Rightarrow> nat \<Rightarrow> extract_state option" where
  "extract_copy fuel bm e p =
     do {
       b \<leftarrow> arr_get bm (index (heap (e_store e) p));
       if b \<noteq> 0 \<and> e_root e = None then
         (let (s1, r) = node_new (e_store e)
          in Some (e\<lparr> e_store := s1, e_root := Some r, e_head := Some r, e_nnode := e_nnode e + 1 \<rparr>))
       else if b \<noteq> 0 then
         (let (s1, q) = node_new (e_store e);
              h1 = set_brlen (heap s1) q (brlen (heap s1 p));
              h2 = (case lab (h1 p) of None \<Rightarrow> h1 | Some l \<Rightarrow> set_lab h1 q (Some l))
          in do {
               hp \<leftarrow> e_head e;
               h3 \<leftarrow> phy_node_add_child fuel h2 hp q;
               Some (e\<lparr> e_store := s1\<lparr> heap := h3 \<rparr>, e_head := Some q, e_nnode := e_nnode e + 1 \<rparr>)
             })
       else Some e
     }"

text \<open>\<^verbatim>\<open>if (bitmask[p->index]) head = head->anc;\<close>\<close>

definition head_up :: "heap \<Rightarrow> int list \<Rightarrow> nat option \<Rightarrow> nat \<Rightarrow> nat option option" where
  "head_up h bm hp p =
     do {
       b \<leftarrow> arr_get bm (index (h p));
       if b \<noteq> 0 then do { x \<leftarrow> hp; Some (anc (h x)) } else Some hp
     }"

text \<open>
  \<^verbatim>\<open>while (p->anc != 0 && p->next == 0) { if (bitmask[p->index]) head = head->anc; p = p->anc; }\<close>
\<close>

fun extract_climb :: "nat \<Rightarrow> heap \<Rightarrow> int list \<Rightarrow> nat option \<Rightarrow> nat \<Rightarrow> (nat option \<times> nat) option" where
  "extract_climb 0 h bm hp p = None"
| "extract_climb (Suc fuel) h bm hp p =
     (case anc (h p) of
        None \<Rightarrow> Some (hp, p)
      | Some pa \<Rightarrow>
          if next (h p) = None then
            do { hp1 \<leftarrow> head_up h bm hp p; extract_climb fuel h bm hp1 pa }
          else Some (hp, p))"

text \<open>The move to the next node of the original tree, in preorder: the new \<^verbatim>\<open>head\<close> and \<open>p\<close>.\<close>

definition extract_advance ::
  "nat \<Rightarrow> heap \<Rightarrow> int list \<Rightarrow> nat option \<Rightarrow> nat \<Rightarrow> (nat option \<times> nat option) option" where
  "extract_advance fuel h bm hp p =
     (if lfdesc (h p) \<noteq> None then Some (hp, lfdesc (h p))
      else if next (h p) \<noteq> None then
        do { hp1 \<leftarrow> head_up h bm hp p; Some (hp1, next (h p)) }
      else
        do {
          (hp1, p1) \<leftarrow> extract_climb fuel h bm hp p;
          hp2 \<leftarrow> head_up h bm hp1 p1;
          Some (hp2, next (h p1))
        })"

fun extract_loop :: "nat \<Rightarrow> nat \<Rightarrow> int list \<Rightarrow> extract_state \<Rightarrow> nat option \<Rightarrow> extract_state option" where
  "extract_loop cf fuel bm e None = Some e"
| "extract_loop cf 0 bm e (Some p) = None"
| "extract_loop cf (Suc fuel) bm e (Some p) =
     do {
       e1 \<leftarrow> extract_copy cf bm e p;
       (hp, p1) \<leftarrow> extract_advance cf (heap (e_store e1)) bm (e_head e1) p;
       extract_loop cf fuel bm (e1\<lparr> e_head := hp \<rparr>) p1
     }"

text \<open>
  The state of the second loop: the heap, \<^verbatim>\<open>root\<close> and \<^verbatim>\<open>nnode\<close>.  One round of
  \<^verbatim>\<open>while (p->ndesc == 1) { ... }\<close> splices \<open>p\<close> out and continues with its only child.
\<close>

record splice_state =
  sp_heap :: heap
  sp_root :: "nat option"
  sp_nnode :: int

definition splice_out :: "splice_state \<Rightarrow> nat \<Rightarrow> (splice_state \<times> nat) option" where
  "splice_out st p =
     do {
       q \<leftarrow> lfdesc (sp_heap st p);
       let h1 = set_brlen (sp_heap st) q (brlen (sp_heap st q) + brlen (sp_heap st p));
       let h2 = set_next h1 q (next (h1 p));
       let h3 = set_prev h2 q (prev (h2 p));
       let h4 = set_anc h3 q (anc (h3 p));
       let h5 = (case prev (h4 p) of None \<Rightarrow> h4 | Some pp \<Rightarrow> set_next h4 pp (Some q));
       let h6 = (case next (h5 p) of None \<Rightarrow> h5 | Some pn \<Rightarrow> set_prev h5 pn (Some q));
       let h7 = (case anc (h6 p) of
                   None \<Rightarrow> h6
                 | Some pa \<Rightarrow> if lfdesc (h6 pa) = Some p then set_lfdesc h6 pa (Some q) else h6);
       let st1 = (if Some p = sp_root st
                  then st\<lparr> sp_heap := set_brlen h7 q 0, sp_root := Some q \<rparr>
                  else st\<lparr> sp_heap := h7 \<rparr>);
       Some (st1\<lparr> sp_nnode := sp_nnode st1 - 1 \<rparr>, q)
     }"

fun splice_chain :: "nat \<Rightarrow> splice_state \<Rightarrow> nat \<Rightarrow> (splice_state \<times> nat) option" where
  "splice_chain 0 st p = None"
| "splice_chain (Suc fuel) st p =
     (if ndesc (sp_heap st p) = 1 then
        do { (st1, q) \<leftarrow> splice_out st p; splice_chain fuel st1 q }
      else Some (st, p))"

text \<open>\<^verbatim>\<open>while (p->anc != 0 && p->next == 0) p = p->anc;\<close>\<close>

fun climb_plain :: "nat \<Rightarrow> heap \<Rightarrow> nat \<Rightarrow> nat option" where
  "climb_plain 0 h p = None"
| "climb_plain (Suc fuel) h p =
     (case anc (h p) of
        None \<Rightarrow> Some p
      | Some pa \<Rightarrow> if next (h p) = None then climb_plain fuel h pa else Some p)"

fun splice_loop :: "nat \<Rightarrow> nat \<Rightarrow> splice_state \<Rightarrow> nat option \<Rightarrow> splice_state option" where
  "splice_loop cf fuel st None = Some st"
| "splice_loop cf 0 st (Some p) = None"
| "splice_loop cf (Suc fuel) st (Some p) =
     do {
       (st1, p1) \<leftarrow> splice_chain cf st p;
       p2 \<leftarrow>
         (if lfdesc (sp_heap st1 p1) \<noteq> None then Some (lfdesc (sp_heap st1 p1))
          else if next (sp_heap st1 p1) \<noteq> None then Some (next (sp_heap st1 p1))
          else do { p3 \<leftarrow> climb_plain cf (sp_heap st1) p1; Some (next (sp_heap st1 p3)) });
       splice_loop cf fuel st1 p2
     }"

text \<open>
  \<^verbatim>\<open>struct phy *phy_extract_subtree(int ntip, struct phy_node **tips, struct phy *phy)\<close>:
  the store and the new tree.
\<close>

definition phy_extract_subtree ::
  "nat \<Rightarrow> store \<Rightarrow> int \<Rightarrow> nat option list \<Rightarrow> phy \<Rightarrow> (store \<times> phy) option" where
  "phy_extract_subtree fuel s nt tips ph =
     do {
       bm \<leftarrow> mark_tips fuel (heap s) nt tips ph;
       e \<leftarrow> extract_loop fuel fuel bm
              \<lparr> e_store = s, e_root = None, e_head = None, e_nnode = 0 \<rparr> (root ph);
       r \<leftarrow> e_root e;
       let h0 = set_brlen (heap (e_store e)) r 0;
       st \<leftarrow> splice_loop fuel fuel \<lparr> sp_heap = h0, sp_root = Some r, sp_nnode = e_nnode e \<rparr> (Some r);
       (h, sub) \<leftarrow> phy_build fuel (sp_heap st) (sp_root st) (sp_nnode st) nt;
       Some ((e_store e)\<lparr> heap := h \<rparr>, sub)
     }"

section \<open>The abstract shape of a node graph\<close>

text \<open>
  The shape of a node graph: a tree of addresses, the children of a node from left to
  right.
\<close>

datatype rtree = Node (addr: nat) (kids: "rtree list")

text \<open>The addresses in preorder; the tips and the internal nodes in preorder.\<close>

fun pre :: "rtree \<Rightarrow> nat list" and pre_forest :: "rtree list \<Rightarrow> nat list" where
  "pre (Node a ts) = a # pre_forest ts"
| "pre_forest [] = []"
| "pre_forest (t # ts) = pre t @ pre_forest ts"

fun tips_of :: "rtree \<Rightarrow> nat list" and tips_of_forest :: "rtree list \<Rightarrow> nat list" where
  "tips_of (Node a ts) = (if ts = [] then [a] else tips_of_forest ts)"
| "tips_of_forest [] = []"
| "tips_of_forest (t # ts) = tips_of t @ tips_of_forest ts"

fun inodes_of :: "rtree \<Rightarrow> nat list" and inodes_of_forest :: "rtree list \<Rightarrow> nat list" where
  "inodes_of (Node a ts) = (if ts = [] then [] else a # inodes_of_forest ts)"
| "inodes_of_forest [] = []"
| "inodes_of_forest (t # ts) = inodes_of t @ inodes_of_forest ts"

text \<open>The number of edges from a node down to its last node in preorder.\<close>

fun rdepth :: "rtree \<Rightarrow> nat" and rdepth_forest :: "rtree list \<Rightarrow> nat" where
  "rdepth (Node a ts) = (if ts = [] then 0 else Suc (rdepth_forest ts))"
| "rdepth_forest [] = 0"
| "rdepth_forest [t] = rdepth t"
| "rdepth_forest (t # u # us) = rdepth_forest (u # us)"

definition first_addr :: "rtree list \<Rightarrow> nat option" where
  "first_addr ts = (case ts of [] \<Rightarrow> None | t # _ \<Rightarrow> Some (addr t))"

text \<open>
  \<open>shape h par nx t\<close>: in the heap \<open>h\<close> the node graph below \<open>addr t\<close> is the tree \<open>t\<close>,
  hanging below \<open>par\<close> with next sibling \<open>nx\<close>.  Only the fields that \<^verbatim>\<open>phy_build\<close> and
  the cursor read are constrained: \<^verbatim>\<open>anc\<close>, \<^verbatim>\<open>next\<close>, \<^verbatim>\<open>lfdesc\<close> and \<^verbatim>\<open>ndesc\<close>.
\<close>

fun shape :: "heap \<Rightarrow> nat option \<Rightarrow> nat option \<Rightarrow> rtree \<Rightarrow> bool"
  and shape_forest :: "heap \<Rightarrow> nat option \<Rightarrow> rtree list \<Rightarrow> bool" where
  "shape h par nx (Node a ts) =
     (anc (h a) = par \<and> next (h a) = nx \<and> ndesc (h a) = int (length ts) \<and>
      lfdesc (h a) = first_addr ts \<and> shape_forest h (Some a) ts)"
| "shape_forest h par [] = True"
| "shape_forest h par (t # ts) = (shape h par (first_addr ts) t \<and> shape_forest h par ts)"

text \<open>
  What the indexing loop of \<^verbatim>\<open>phy_build\<close> does to its state on a whole subtree, as a
  recursion over the tree: \<open>visit\<close> is the loop body without the bounds checks of the
  arrays, and the last node in preorder is recorded in \<^verbatim>\<open>lastvisit\<close> once the children
  are done.
\<close>

definition visit :: "build_state \<Rightarrow> nat \<Rightarrow> build_state" where
  "visit b p =
     (if ndesc (b_heap b p) \<noteq> 0 then
        b\<lparr> b_heap := set_index (b_heap b) p (ntip (b_phy b) + b_j b),
           b_phy := (b_phy b)\<lparr> nodes := (nodes (b_phy b))[nat (b_i b) := Some p],
                               inodes := (inodes (b_phy b))[nat (b_j b) := Some p],
                               vseq := (vseq (b_phy b))[nat (ntip (b_phy b) + b_j b) := b_i b] \<rparr>,
           b_i := b_i b + 1, b_j := b_j b + 1 \<rparr>
      else
        b\<lparr> b_heap := set_index (b_heap b) p (b_k b),
           b_phy := (b_phy b)\<lparr> nodes := (nodes (b_phy b))[nat (b_i b) := Some p],
                               vseq := (vseq (b_phy b))[nat (b_k b) := b_i b] \<rparr>,
           b_i := b_i b + 1, b_k := b_k b + 1 \<rparr>)"

fun run_tree :: "build_state \<Rightarrow> rtree \<Rightarrow> build_state"
  and run_forest :: "build_state \<Rightarrow> rtree list \<Rightarrow> build_state" where
  "run_tree b (Node a ts) =
     (let b1 = run_forest (visit b a) ts
      in if ts = [] then b1
         else b1\<lparr> b_heap := set_lastvisit (b_heap b1) a (Some (last (pre (Node a ts)))) \<rparr>)"
| "run_forest b [] = b"
| "run_forest b (t # ts) = run_forest (run_tree b t) ts"

text \<open>Two heaps agree on the link fields.\<close>

definition same_links :: "heap \<Rightarrow> heap \<Rightarrow> bool" where
  "same_links h h' = (\<forall>x. anc (h' x) = anc (h x) \<and> next (h' x) = next (h x) \<and>
     lfdesc (h' x) = lfdesc (h x) \<and> ndesc (h' x) = ndesc (h x))"

text \<open>The counts and the array sizes of the tree under construction do not change.\<close>

definition frame_ok :: "build_state \<Rightarrow> build_state \<Rightarrow> bool" where
  "frame_ok b b' = (ntip (b_phy b') = ntip (b_phy b) \<and> nnode (b_phy b') = nnode (b_phy b) \<and>
     root (b_phy b') = root (b_phy b) \<and>
     length (nodes (b_phy b')) = length (nodes (b_phy b)) \<and>
     length (inodes (b_phy b')) = length (inodes (b_phy b)) \<and>
     length (vseq (b_phy b')) = length (vseq (b_phy b)))"

text \<open>Room in the arrays for \<open>n_all\<close> more nodes, \<open>n_in\<close> of them internal and \<open>n_tip\<close> tips.\<close>

definition bounds :: "build_state \<Rightarrow> nat \<Rightarrow> nat \<Rightarrow> nat \<Rightarrow> bool" where
  "bounds b n_all n_in n_tip =
     (0 \<le> b_i b \<and> b_i b + int n_all \<le> int (length (nodes (b_phy b))) \<and>
      0 \<le> b_j b \<and> b_j b + int n_in \<le> int (length (inodes (b_phy b))) \<and>
      0 \<le> ntip (b_phy b) \<and>
      ntip (b_phy b) + b_j b + int n_in \<le> int (length (vseq (b_phy b))) \<and>
      0 \<le> b_k b \<and> b_k b + int n_tip \<le> int (length (vseq (b_phy b))))"

text \<open>The state in which \<^verbatim>\<open>phy_build\<close> enters its loop, and the state in which it leaves it.\<close>

definition build_init :: "heap \<Rightarrow> nat option \<Rightarrow> int \<Rightarrow> int \<Rightarrow> build_state" where
  "build_init h rt nn nt =
     \<lparr> b_heap = h,
       b_phy = \<lparr> ntip = nt, nnode = nn, root = rt, nodes = replicate (nat nn) None,
                 inodes = replicate (nat (nn - nt)) None, vseq = replicate (nat nn) 0 \<rparr>,
       b_i = 0, b_j = 0, b_k = 0 \<rparr>"

definition built :: "heap \<Rightarrow> rtree \<Rightarrow> build_state" where
  "built h t = run_tree (build_init h (Some (addr t)) (int (length (pre t))) (int (length (tips_of t)))) t"

text \<open>A root at address 0 with the two tips 1 and 2.\<close>

definition cherry_heap :: heap where
  "cherry_heap = (\<lambda>_. node_init)
     (0 := node_init\<lparr> ndesc := 2, lfdesc := Some 1 \<rparr>,
      1 := node_init\<lparr> anc := Some 0, next := Some 2 \<rparr>,
      2 := node_init\<lparr> anc := Some 0, prev := Some 1 \<rparr>)"

text \<open>All subtrees of a tree, the tree itself first, in preorder of their roots.\<close>

fun subtrees :: "rtree \<Rightarrow> rtree list" and subtrees_forest :: "rtree list \<Rightarrow> rtree list" where
  "subtrees (Node a ts) = Node a ts # subtrees_forest ts"
| "subtrees_forest [] = []"
| "subtrees_forest (t # ts) = subtrees t @ subtrees_forest ts"

text \<open>
  The result of the sibling scan of \<^verbatim>\<open>phy_cursor_prepare_v2\<close> on a list of siblings: the
  last sibling that has children, or the start value \<open>p\<close> when there is none.
\<close>

fun pick :: "rtree list \<Rightarrow> nat option \<Rightarrow> nat option" where
  "pick [] p = p"
| "pick (t # ts) p = pick ts (if kids t \<noteq> [] then Some (addr t) else p)"

text \<open>Every internal node caches the last node of its subtree in preorder.\<close>

definition lv_ok :: "heap \<Rightarrow> rtree \<Rightarrow> bool" where
  "lv_ok H t = (\<forall>s \<in> set (subtrees t). kids s \<noteq> [] \<longrightarrow> lastvisit (H (addr s)) = Some (last (pre s)))"

section \<open>Evaluation on concrete inputs\<close>

text \<open>
  Concrete runs are evaluated by rewriting.  The continuation of a bind and the body
  of a let are only rewritten once the bound value is known.
\<close>

lemma bind_weak_cong: "m = m' \<Longrightarrow> Option.bind m f = Option.bind m' f"
  by simp

lemmas set_field_defs = set_index_def set_ndesc_def set_lab_def set_note_def set_lfdesc_def
  set_next_def set_prev_def set_anc_def set_lastvisit_def set_brlen_def

lemmas fuel_numeral =
  walk_next.simps(2)[of _ "pred_numeral k" for k, folded numeral_eq_Suc]
  last_sibling.simps(2)[of "pred_numeral k" for k, folded numeral_eq_Suc]
  read_label.simps(2)[of "pred_numeral k" for k, folded numeral_eq_Suc]
  read_note_loop.simps(2)[of "pred_numeral k" for k, folded numeral_eq_Suc]
  read_brlen_loop.simps(2)[of "pred_numeral k" for k, folded numeral_eq_Suc]
  read_newick_loop.simps(2)[of "pred_numeral k" for k, folded numeral_eq_Suc]
  dec_digits.simps(2)[of "pred_numeral k" for k, folded numeral_eq_Suc]
  num_digits.simps(2)[of "pred_numeral k" for k, folded numeral_eq_Suc]
  write_newick.simps(2)[of "pred_numeral k" for k, folded numeral_eq_Suc]
  write_desc.simps(2,3)[of "pred_numeral k" for k, folded numeral_eq_Suc]
  climb.simps(2)[of "pred_numeral k" for k, folded numeral_eq_Suc]
  build_loop.simps(3)[of _ "pred_numeral k" for k, folded numeral_eq_Suc]
  scan_siblings.simps(2,3)[of "pred_numeral k" for k, folded numeral_eq_Suc]
  descend_internal.simps(2)[of _ "pred_numeral k" for k, folded numeral_eq_Suc]
  cursor_steps.simps(2)[of "pred_numeral k" for k, folded numeral_eq_Suc]
  mark_ancestors.simps(2)[of "pred_numeral k" for k, folded numeral_eq_Suc]
  first_marked.simps(2,3)[of "pred_numeral k" for k, folded numeral_eq_Suc]

lemmas node_defs = node_new_def store_init_def node_init_def phy_node_add_child_def
  phy_node_prune_def set_field_defs

lemmas reader_defs = read_newick_def read_newick_end_def reader_init_def read_brlen_def
  read_note_def read_label_end_def terminate_z_def push_z_def label_stop_def label_bad_def
  brlen_char_def brlen_stop_def char_at_def NUL_def PHY_OK_def PHY_ERR_def is_digit_def
  phy_read_newickstr_def cleanup_def atof_def take_sign_def atof_exponent_def digit_val_def

lemmas build_defs = phy_build_def build_visit_def build_advance_def arr_get_def arr_set_def

lemmas writer_defs = phy_write_newickstr_def write_chars_def write_label_def write_note_def
  write_brlen_def format_f_def show_nat_def round_half_even_def digit_char_def phy_duplicate_def

lemmas cursor_defs = phy_cursor_prepare_v2_def phy_cursor_step_def last_node_def
  last_internal_def lastvisit_anc_lfdesc_def cursor_init_def PREORDER_def POSTORDER_def
  ALL_NODES_def INTERNAL_NODES_ONLY_def

lemmas alg_defs = phy_isrooted_def phy_unroot_def phy_node_mrca_def

section \<open>The error slot\<close>

text \<open>
  C10.  Reading the error message is destructive: for each of the four error kinds
  \<^verbatim>\<open>phy_errmsg\<close> returns the fixed message of the kind and resets \<^verbatim>\<open>phy_errno\<close> to 0;
  with no error recorded it returns "no errors detected"; and whatever the slot held,
  a second call right after the first returns "no errors detected".
\<close>

theorem phy_errmsg_destructive:
  "phy_errmsg 1 = (''cannot allocate memory'', 0) \<and>
   phy_errmsg 2 =
     (''encountered unexpected character in Newick string node label/branch length'', 0) \<and>
   phy_errmsg 3 = (''detected unifurcation in Newick string'', 0) \<and>
   phy_errmsg 4 = (''malformed Newick string'', 0) \<and>
   phy_errmsg 0 = (''no errors detected'', 0) \<and>
   (\<forall>e. fst (phy_errmsg (snd (phy_errmsg e))) = ''no errors detected'')"
  by (simp add: phy_errmsg_def PHY_ERR1_def PHY_ERR2_def PHY_ERR3_def PHY_ERR4_def)

section \<open>The reader and the writer on concrete strings\<close>

text \<open>
  C2.  On \<^verbatim>\<open>(A,B;\<close> the reader returns \<^verbatim>\<open>NULL\<close> with \<^verbatim>\<open>phy_errno = 3\<close> (unifurcation), not
  4 (malformed input): at the terminator the current node is the tip \<open>B\<close>, whose
  \<^verbatim>\<open>ndesc\<close> is 0, and only the test \<^verbatim>\<open>ndesc < 2\<close> is made.  On \<^verbatim>\<open>(A);\<close> it returns \<^verbatim>\<open>NULL\<close>
  with \<^verbatim>\<open>phy_errno = 3\<close> as well.
\<close>

theorem read_newick_unbalanced_reports_unifurcation:
  "(case read_newick 20 store_init (reader_init ''(A,B;'') of
      None \<Rightarrow> False
    | Some (s, ctx, r) \<Rightarrow> r = None \<and> phy_errno s = 3 \<and> phy_errno s \<noteq> 4) \<and>
   (case read_newick 20 store_init (reader_init ''(A);'') of
      None \<Rightarrow> False
    | Some (s, ctx, r) \<Rightarrow> r = None \<and> phy_errno s = 3)"
  by (simp add: node_defs reader_defs fuel_numeral Let_def
      cong: bind_weak_cong let_weak_cong prod.case_cong_weak)

text \<open>
  C3.  The string \<^verbatim>\<open>(A[,C]:1,B);\<close> is read as a tree with 2 tips and 3 nodes (the first
  tip carries the note \<^verbatim>\<open>,C\<close>).  The writer emits the note without brackets, giving
  \<^verbatim>\<open>(1,C,B);\<close>, and reading that back yields 3 tips and 4 nodes.
\<close>

theorem roundtrip_note_changes_counts:
  "(case phy_read_newickstr 20 store_init ''(A[,C]:1,B);'' of
      Some (s, Some ph) \<Rightarrow>
        ntip ph = 2 \<and> nnode ph = 3 \<and> note (heap s 1) = Some '',C'' \<and>
        phy_write_newickstr 20 (heap s) ph = Some ''(1,C,B);'' \<and>
        (case phy_read_newickstr 20 s ''(1,C,B);'' of
           Some (s', Some ph') \<Rightarrow> ntip ph' = 3 \<and> nnode ph' = 4
         | _ \<Rightarrow> False)
    | _ \<Rightarrow> False)"
  by (simp add: node_defs reader_defs build_defs writer_defs fuel_numeral Let_def
      cong: bind_weak_cong let_weak_cong prod.case_cong_weak)

text \<open>
  C4.  For the tree read from \<^verbatim>\<open>(A[x]::1,B);\<close>, whose first tip has label \<open>A\<close>, note
  \<open>x\<close> and branch length 1, the writer emits \<^verbatim>\<open>(Ax:1.000000,B);\<close>: the note follows the
  label without brackets.
\<close>

theorem write_newick_note_unbracketed:
  "(case phy_read_newickstr 20 store_init ''(A[x]::1,B);'' of
      Some (s, Some ph) \<Rightarrow>
        lab (heap s 1) = Some ''A'' \<and> note (heap s 1) = Some ''x'' \<and> brlen (heap s 1) = 1 \<and>
        phy_write_newickstr 20 (heap s) ph = Some ''(Ax:1.000000,B);'' \<and>
        phy_write_newickstr 20 (heap s) ph \<noteq> Some ''(A[x]:1.000000,B);''
    | _ \<Rightarrow> False)"
  by (simp add: node_defs reader_defs build_defs writer_defs fuel_numeral Let_def
      cong: bind_weak_cong let_weak_cong prod.case_cong_weak)

section \<open>Sibling swap\<close>

text \<open>
  C5.  A root (address 0) gets the children 1 and 2 through \<^verbatim>\<open>phy_node_add_child\<close>;
  they are adjacent siblings.  After \<^verbatim>\<open>phy_node_swap\<close> of the two, each of them is its
  own \<^verbatim>\<open>next\<close> and its own \<^verbatim>\<open>prev\<close>: the sibling list is no longer a list, where the
  exchange would give \<open>next 2 = 1\<close>, \<open>prev 1 = 2\<close> and \<open>next 1 = NULL\<close>.
\<close>

theorem phy_node_swap_adjacent_corrupts:
  "(let (s0, r) = node_new store_init; (s1, a) = node_new s0; (s2, b) = node_new s1
    in case do { h1 \<leftarrow> phy_node_add_child 0 (heap s2) r a; phy_node_add_child 0 h1 r b } of
         None \<Rightarrow> False
       | Some h \<Rightarrow>
           r = 0 \<and> a = 1 \<and> b = 2 \<and>
           lfdesc (h r) = Some a \<and> next (h a) = Some b \<and> prev (h b) = Some a \<and>
           next (h b) = None \<and> prev (h a) = None \<and>
           anc (h a) = Some r \<and> anc (h b) = Some r \<and>
           (let h' = phy_node_swap h a b
            in next (h' a) = Some a \<and> prev (h' a) = Some a \<and>
               next (h' b) = Some b \<and> prev (h' b) = Some b \<and> lfdesc (h' r) = Some b))"
  by (simp add: node_defs phy_node_swap_def Let_def
      cong: bind_weak_cong let_weak_cong prod.case_cong_weak)

section \<open>Unrooting and the most recent common ancestor\<close>

text \<open>
  C1.  The tree read from \<^verbatim>\<open>((A,B),C);\<close> has 5 nodes and a root with 2 children, so it
  is rooted; \<^verbatim>\<open>phy_unroot\<close> stores \<^verbatim>\<open>NULL\<close> in \<^verbatim>\<open>*out\<close> instead of a tree with 4 nodes.
\<close>

theorem phy_unroot_rooted_yields_null:
  "(case phy_read_newickstr 20 store_init ''((A,B),C);'' of
      Some (s, Some ph) \<Rightarrow>
        root ph = Some 0 \<and> ndesc (heap s 0) = 2 \<and> nnode ph = 5 \<and>
        phy_isrooted (heap s) ph = Some 1 \<and>
        (case phy_unroot 20 s ph of Some (s', None) \<Rightarrow> True | _ \<Rightarrow> False)
    | _ \<Rightarrow> False)"
  by (simp add: node_defs reader_defs build_defs alg_defs fuel_numeral Let_def
      cong: bind_weak_cong let_weak_cong prod.case_cong_weak)

text \<open>
  C9.  In the tree read from \<^verbatim>\<open>((A,B)N1,C);\<close> the root is at address 0, \<open>N1\<close> at 1 and
  its child \<open>A\<close> at 2.  \<^verbatim>\<open>phy_node_mrca(A, N1)\<close> is \<open>N1\<close>, but \<^verbatim>\<open>phy_node_mrca(N1, A)\<close> is
  the root, and \<^verbatim>\<open>phy_node_mrca(root, A)\<close> is \<^verbatim>\<open>NULL\<close>.
\<close>

theorem phy_node_mrca_ancestor_argument:
  "(case phy_read_newickstr 20 store_init ''((A,B)N1,C);'' of
      Some (s, Some ph) \<Rightarrow>
        root ph = Some 0 \<and> lab (heap s 1) = Some ''N1'' \<and> lab (heap s 2) = Some ''A'' \<and>
        anc (heap s 2) = Some 1 \<and> anc (heap s 1) = Some 0 \<and>
        phy_node_mrca 10 (heap s) ph 2 1 = Some (Some 1) \<and>
        phy_node_mrca 10 (heap s) ph 1 2 = Some (Some 0) \<and>
        phy_node_mrca 10 (heap s) ph 0 2 = Some None
    | _ \<Rightarrow> False)"
  by (simp add: node_defs reader_defs build_defs alg_defs fuel_numeral Let_def
      cong: bind_weak_cong let_weak_cong prod.case_cong_weak)

section \<open>Index assignment by \<^verbatim>\<open>phy_build\<close>\<close>

lemma pre_nonempty [simp]: "pre t \<noteq> []"
  by (cases t) simp

lemma length_pre_split:
  "length (pre t) = length (tips_of t) + length (inodes_of t)"
  "length (pre_forest ts) = length (tips_of_forest ts) + length (inodes_of_forest ts)"
  by (induction t and ts rule: pre_pre_forest.induct) auto

lemma rdepth_less:
  "rdepth t < length (pre t)"
  "ts \<noteq> [] \<Longrightarrow> rdepth_forest ts < length (pre_forest ts)"
  by (induction t and ts rule: rdepth_rdepth_forest.induct) auto

lemma climb_stop:
  "c \<noteq> 0 \<Longrightarrow> anc (h p) = None \<or> next (h p) \<noteq> None \<Longrightarrow> climb c h p q = Some (h, p)"
  by (cases c) (auto split: option.splits)

lemma climb_step:
  "anc (h p) = Some a \<Longrightarrow> next (h p) = None \<Longrightarrow>
   climb (Suc c) h p q = climb c (set_lastvisit h a (Some q)) a q"
  by simp

lemma same_links_refl [simp]: "same_links h h"
  by (simp add: same_links_def)

lemma same_links_trans: "same_links h h1 \<Longrightarrow> same_links h1 h2 \<Longrightarrow> same_links h h2"
  by (simp add: same_links_def)

lemma same_links_set_index [simp]: "same_links h (set_index h p v)"
  by (simp add: same_links_def set_index_def)

lemma same_links_set_lastvisit [simp]: "same_links h (set_lastvisit h p v)"
  by (simp add: same_links_def set_lastvisit_def)

lemma shape_same_links:
  "same_links h h' \<Longrightarrow> shape h' par nx t = shape h par nx t"
  "same_links h h' \<Longrightarrow> shape_forest h' par ts = shape_forest h par ts"
  by (induction h par nx t and h par ts rule: shape_shape_forest.induct)
     (auto simp: same_links_def)

lemma same_links_visit [simp]: "same_links (b_heap b) (b_heap (visit b p))"
  by (simp add: visit_def)

lemma same_links_run:
  "same_links (b_heap b) (b_heap (run_tree b t))"
  "same_links (b_heap b) (b_heap (run_forest b ts))"
proof (induction b t and b ts rule: run_tree_run_forest.induct)
  case (1 b a ts)
  have "same_links (b_heap b) (b_heap (run_forest (visit b a) ts))"
    using "1.IH" same_links_visit same_links_trans by blast
  then show ?case
    by (auto simp: Let_def intro: same_links_trans)
next
  case (2 b)
  then show ?case by simp
next
  case (3 b t ts)
  then show ?case using same_links_trans by auto
qed

lemma frame_ok_refl [simp]: "frame_ok b b"
  by (simp add: frame_ok_def)

lemma frame_ok_trans: "frame_ok b b1 \<Longrightarrow> frame_ok b1 b2 \<Longrightarrow> frame_ok b b2"
  by (simp add: frame_ok_def)

lemma frame_ok_visit [simp]: "frame_ok b (visit b p)"
  by (simp add: frame_ok_def visit_def)

lemma frame_ok_heap [simp]: "frame_ok b (b'\<lparr> b_heap := h \<rparr>) = frame_ok b b'"
  by (simp add: frame_ok_def)

lemma frame_ok_run:
  "frame_ok b (run_tree b t)"
  "frame_ok b (run_forest b ts)"
proof (induction b t and b ts rule: run_tree_run_forest.induct)
  case (1 b a ts)
  have "frame_ok b (run_forest (visit b a) ts)"
    using "1.IH" frame_ok_visit frame_ok_trans by blast
  then show ?case by (simp add: Let_def)
next
  case (2 b)
  then show ?case by simp
next
  case (3 b t ts)
  then show ?case using frame_ok_trans by auto
qed

lemma run_i:
  "b_i (run_tree b t) = b_i b + int (length (pre t))"
  "b_i (run_forest b ts) = b_i b + int (length (pre_forest ts))"
  by (induction b t and b ts rule: run_tree_run_forest.induct)
     (auto simp: Let_def visit_def)

lemma run_jk:
  "shape (b_heap b) par nx t \<Longrightarrow>
     b_j (run_tree b t) = b_j b + int (length (inodes_of t)) \<and>
     b_k (run_tree b t) = b_k b + int (length (tips_of t))"
  "shape_forest (b_heap b) par ts \<Longrightarrow>
     b_j (run_forest b ts) = b_j b + int (length (inodes_of_forest ts)) \<and>
     b_k (run_forest b ts) = b_k b + int (length (tips_of_forest ts))"
proof (induction b t and b ts arbitrary: par nx and par rule: run_tree_run_forest.induct)
  case (1 b a ts)
  from "1.prems" have sh: "shape_forest (b_heap b) (Some a) ts" and nd: "ndesc (b_heap b a) = int (length ts)"
    by auto
  have "shape_forest (b_heap (visit b a)) (Some a) ts"
    using sh shape_same_links(2)[OF same_links_visit] by blast
  from "1.IH"[OF this] nd show ?case
    by (auto simp: Let_def visit_def)
next
  case (2 b)
  then show ?case by simp
next
  case (3 b t ts)
  from "3.prems" have s1: "shape (b_heap b) par (first_addr ts) t" and s2: "shape_forest (b_heap b) par ts"
    by auto
  have "shape_forest (b_heap (run_tree b t)) par ts"
    using s2 shape_same_links(2)[OF same_links_run(1)] by blast
  from "3.IH"(2)[OF this] "3.IH"(1)[OF s1] show ?case by auto
qed

lemma build_visit_visit:
  assumes "bounds b (Suc n) n_in n_tip"
    and "ndesc (b_heap b p) \<noteq> 0 \<Longrightarrow> 0 < n_in"
    and "ndesc (b_heap b p) = 0 \<Longrightarrow> 0 < n_tip"
  shows "build_visit b p = Some (visit b p)"
proof (cases "ndesc (b_heap b p) = 0")
  case True
  with assms(3) have "0 < n_tip" by simp
  with True assms(1) show ?thesis
    by (simp add: bounds_def build_visit_def visit_def arr_set_def set_index_def Let_def)
next
  case False
  with assms(2) have "0 < n_in" by simp
  with False assms(1) show ?thesis
    by (simp add: bounds_def build_visit_def visit_def arr_set_def set_index_def Let_def)
qed

lemma bounds_heap [simp]: "bounds (b\<lparr> b_heap := h \<rparr>) n m k = bounds b n m k"
  by (simp add: bounds_def)

lemma bounds_mono:
  "bounds b n m k \<Longrightarrow> n' \<le> n \<Longrightarrow> m' \<le> m \<Longrightarrow> k' \<le> k \<Longrightarrow> bounds b n' m' k'"
  by (auto simp: bounds_def)

lemma bounds_visit:
  assumes "bounds b (Suc n) m k"
    and "ndesc (b_heap b p) \<noteq> 0 \<Longrightarrow> m = Suc m' \<and> k = k'"
    and "ndesc (b_heap b p) = 0 \<Longrightarrow> m = m' \<and> k = Suc k'"
  shows "bounds (visit b p) n m' k'"
proof (cases "ndesc (b_heap b p) = 0")
  case True
  with assms show ?thesis by (simp add: bounds_def visit_def)
next
  case False
  with assms show ?thesis by (simp add: bounds_def visit_def)
qed

lemma bounds_run_tree:
  assumes "bounds b (length (pre t) + n) (length (inodes_of t) + m) (length (tips_of t) + k)"
    and "shape (b_heap b) par nx t"
  shows "bounds (run_tree b t) n m k"
  using assms run_i(1)[of b t] run_jk(1)[OF assms(2)] frame_ok_run(1)[of b t]
  by (simp add: bounds_def frame_ok_def)

lemma first_addr_Cons [simp]: "first_addr (t # ts) = Some (addr t)"
  by (simp add: first_addr_def)

lemma first_addr_Nil [simp]: "first_addr [] = None"
  by (simp add: first_addr_def)

lemma first_addr_None [simp]: "(first_addr ts = None) = (ts = [])"
  by (cases ts) auto

lemma pre_forest_empty [simp]: "(pre_forest ts = []) = (ts = [])"
  by (cases ts) auto

lemma last_pre_forest: "ts \<noteq> [] \<Longrightarrow> last (pre_forest ts) = last (pre (last ts))"
  by (induction ts) auto

lemma shape_forest_last:
  "ts \<noteq> [] \<Longrightarrow> shape_forest h par ts \<Longrightarrow>
   anc (h (addr (last ts))) = par \<and> next (h (addr (last ts))) = None"
proof (induction ts)
  case Nil
  then show ?case by simp
next
  case (Cons t ts)
  then show ?case by (cases t; cases ts) auto
qed

lemma build_loop_run:
  "shape (b_heap b) par nx t \<Longrightarrow> length (pre t) \<le> cf \<Longrightarrow>
   bounds b (length (pre t)) (length (inodes_of t)) (length (tips_of t)) \<Longrightarrow>
   build_loop cf (F + length (pre t)) b (Some (addr t)) =
     (case climb (cf - rdepth t) (b_heap (run_tree b t)) (addr t) (last (pre t)) of
        None \<Rightarrow> None
      | Some (h', p') \<Rightarrow> build_loop cf F ((run_tree b t)\<lparr> b_heap := h' \<rparr>) (next (h' p')))"
  "ts \<noteq> [] \<Longrightarrow> shape_forest (b_heap b) par ts \<Longrightarrow> length (pre_forest ts) \<le> cf \<Longrightarrow>
   bounds b (length (pre_forest ts)) (length (inodes_of_forest ts)) (length (tips_of_forest ts)) \<Longrightarrow>
   build_loop cf (F + length (pre_forest ts)) b (first_addr ts) =
     (case climb (cf - rdepth_forest ts) (b_heap (run_forest b ts)) (addr (last ts))
             (last (pre_forest ts)) of
        None \<Rightarrow> None
      | Some (h', p') \<Rightarrow> build_loop cf F ((run_forest b ts)\<lparr> b_heap := h' \<rparr>) (next (h' p')))"
proof (induction t and ts arbitrary: b F par nx and b F par rule: pre_pre_forest.induct)
  case (1 a ts)
  let ?b1 = "visit b a"
  from "1.prems"(1) have nd: "ndesc (b_heap b a) = int (length ts)"
    and lf: "lfdesc (b_heap b a) = first_addr ts"
    and an: "anc (b_heap b a) = par" and nx: "next (b_heap b a) = nx"
    and sf: "shape_forest (b_heap b) (Some a) ts" by auto
  have sl: "same_links (b_heap b) (b_heap ?b1)" by simp
  have bv: "build_visit b a = Some ?b1"
    using "1.prems"(3) nd by (intro build_visit_visit[where n = "length (pre_forest ts)"]) auto
  have cf1: "cf \<noteq> 0" using "1.prems"(2) by auto
  show ?case
  proof (cases "ts = []")
    case True
    have lf1: "lfdesc (b_heap ?b1 a) = None" and nx1: "next (b_heap ?b1 a) = nx"
      using sl lf nx True by (auto simp: same_links_def)
    show ?thesis
    proof (cases nx)
      case None
      then show ?thesis
        using True bv lf1 nx1 cf1
        by (simp add: build_advance_def Let_def split: option.splits prod.splits)
    next
      case (Some y)
      then have "climb cf (b_heap ?b1) a a = Some (b_heap ?b1, a)"
        using nx1 cf1 by (intro climb_stop) auto
      then show ?thesis
        using True bv lf1 nx1 Some
        by (simp add: build_advance_def Let_def)
    qed
  next
    case False
    have lf1: "lfdesc (b_heap ?b1 a) = first_addr ts"
      using sl lf by (auto simp: same_links_def)
    have sf1: "shape_forest (b_heap ?b1) (Some a) ts"
      using sf shape_same_links(2)[OF sl] by blast
    have len: "length (pre_forest ts) \<le> cf" using "1.prems"(2) by simp
    have bnd: "bounds ?b1 (length (pre_forest ts)) (length (inodes_of_forest ts))
        (length (tips_of_forest ts))"
      using "1.prems"(3) nd False
      by (intro bounds_visit[where m = "length (inodes_of (Node a ts))"
            and k = "length (tips_of (Node a ts))"]) auto
    let ?b2 = "run_forest ?b1 ts"
    let ?q = "last (pre_forest ts)"
    have sl2: "same_links (b_heap b) (b_heap ?b2)"
      using sl same_links_run(2) same_links_trans by blast
    have sf2: "shape_forest (b_heap ?b2) (Some a) ts"
      using sf shape_same_links(2)[OF sl2] by blast
    have lastsh: "anc (b_heap ?b2 (addr (last ts))) = Some a \<and> next (b_heap ?b2 (addr (last ts))) = None"
      using shape_forest_last[OF False sf2] by simp
    have rd: "cf - rdepth_forest ts = Suc (cf - Suc (rdepth_forest ts))"
      using rdepth_less(2)[OF False] len by simp
    have step: "climb (cf - rdepth_forest ts) (b_heap ?b2) (addr (last ts)) ?q =
        climb (cf - Suc (rdepth_forest ts)) (set_lastvisit (b_heap ?b2) a (Some ?q)) a ?q"
      using lastsh by (subst rd) (simp add: climb_step)
    have "build_loop cf (F + length (pre (Node a ts))) b (Some (addr (Node a ts))) =
        build_loop cf (F + length (pre_forest ts)) ?b1 (first_addr ts)"
      using bv lf1 False by (simp add: build_advance_def)
    also have "\<dots> = (case climb (cf - rdepth_forest ts) (b_heap ?b2) (addr (last ts)) ?q of
        None \<Rightarrow> None
      | Some (h', p') \<Rightarrow> build_loop cf F (?b2\<lparr> b_heap := h' \<rparr>) (next (h' p')))"
      by (rule "1.IH"[OF False sf1 len bnd])
    finally show ?thesis
      using False step by (simp add: Let_def last_pre_forest split: option.splits prod.splits)
  qed
next
  case 2
  then show ?case by simp
next
  case (3 t ts)
  from "3.prems"(2) have s1: "shape (b_heap b) par (first_addr ts) t"
    and s2: "shape_forest (b_heap b) par ts" by auto
  have len1: "length (pre t) \<le> cf" using "3.prems"(3) by simp
  have bnd1: "bounds b (length (pre t)) (length (inodes_of t)) (length (tips_of t))"
    using "3.prems"(4) by (rule bounds_mono) auto
  show ?case
  proof (cases "ts = []")
    case True
    then show ?thesis
      using "3.IH"(1)[OF s1 len1 bnd1, of F] by (simp split: option.splits prod.splits)
  next
    case False
    let ?b1 = "run_tree b t"
    have sl: "same_links (b_heap b) (b_heap ?b1)" by (rule same_links_run)
    have s2': "shape_forest (b_heap ?b1) par ts"
      using s2 shape_same_links(2)[OF sl] by blast
    have len2: "length (pre_forest ts) \<le> cf" using "3.prems"(3) by simp
    have bnd2: "bounds ?b1 (length (pre_forest ts)) (length (inodes_of_forest ts))
        (length (tips_of_forest ts))"
      using "3.prems"(4) s1 by (intro bounds_run_tree) auto
    have nx1: "next (b_heap ?b1 (addr t)) = first_addr ts"
      using sl s1 by (cases t) (auto simp: same_links_def)
    have c0: "cf - rdepth t \<noteq> 0"
      using rdepth_less(1)[of t] len1 by simp
    have stop: "climb (cf - rdepth t) (b_heap ?b1) (addr t) (last (pre t)) = Some (b_heap ?b1, addr t)"
      using nx1 False c0 by (intro climb_stop) auto
    have rdf: "rdepth_forest (t # ts) = rdepth_forest ts"
      using False by (cases ts) auto
    have lst: "last (pre_forest (t # ts)) = last (pre_forest ts)" "last (t # ts) = last ts"
      using False by auto
    have "build_loop cf (F + length (pre_forest (t # ts))) b (first_addr (t # ts)) =
        build_loop cf ((F + length (pre_forest ts)) + length (pre t)) b (Some (addr t))"
      by (simp add: add.commute add.left_commute)
    also have "\<dots> = build_loop cf (F + length (pre_forest ts)) ?b1 (first_addr ts)"
      using "3.IH"(1)[OF s1 len1 bnd1, of "F + length (pre_forest ts)"] stop nx1 by simp
    also have "\<dots> = (case climb (cf - rdepth_forest ts) (b_heap (run_forest ?b1 ts)) (addr (last ts))
             (last (pre_forest ts)) of
        None \<Rightarrow> None
      | Some (h', p') \<Rightarrow> build_loop cf F ((run_forest ?b1 ts)\<lparr> b_heap := h' \<rparr>) (next (h' p')))"
      by (rule "3.IH"(2)[OF False s2' len2 bnd2])
    finally show ?thesis
      using rdf lst by (simp split: option.splits prod.splits)
  qed
qed

lemma run_heap_frame:
  "x \<notin> set (pre t) \<Longrightarrow> b_heap (run_tree b t) x = b_heap b x"
  "x \<notin> set (pre_forest ts) \<Longrightarrow> b_heap (run_forest b ts) x = b_heap b x"
  by (induction b t and b ts rule: run_tree_run_forest.induct)
     (auto simp: Let_def visit_def set_index_def set_lastvisit_def)

lemma tips_inodes_subset:
  "set (tips_of t) \<union> set (inodes_of t) = set (pre t)"
  "set (tips_of_forest ts) \<union> set (inodes_of_forest ts) = set (pre_forest ts)"
  by (induction t and ts rule: pre_pre_forest.induct) auto

lemma tips_inodes_disjoint:
  "distinct (pre t) \<Longrightarrow> distinct (tips_of t) \<and> distinct (inodes_of t) \<and> set (tips_of t) \<inter> set (inodes_of t) = {}"
  "distinct (pre_forest ts) \<Longrightarrow> distinct (tips_of_forest ts) \<and> distinct (inodes_of_forest ts) \<and>
     set (tips_of_forest ts) \<inter> set (inodes_of_forest ts) = {}"
proof (induction t and ts rule: pre_pre_forest.induct)
  case (1 a ts)
  then show ?case using tips_inodes_subset(2)[of ts] by auto
next
  case 2
  then show ?case by simp
next
  case (3 t ts)
  then show ?case using tips_inodes_subset(1)[of t] tips_inodes_subset(2)[of ts] by auto
qed

lemma index_set_lastvisit [simp]: "index (set_lastvisit h p v x) = index (h x)"
  by (simp add: set_lastvisit_def)

lemma map_upt_int_add:
  "map (\<lambda>m. c + int m) [0..<a + b] =
   map (\<lambda>m. c + int m) [0..<a] @ map (\<lambda>m. (c + int a) + int m) [0..<b]"
  by (induction b) (simp_all add: add.assoc)

lemma map_upt_int_Suc:
  "map (\<lambda>m. c + int m) [0..<Suc a] = c # map (\<lambda>m. (c + 1) + int m) [0..<a]"
  using map_upt_int_add[of c 1 a] by simp

lemma run_index:
  "shape (b_heap b) par nx t \<Longrightarrow> distinct (pre t) \<Longrightarrow>
     map (\<lambda>a. index (b_heap (run_tree b t) a)) (tips_of t) =
       map (\<lambda>m. b_k b + int m) [0..<length (tips_of t)] \<and>
     map (\<lambda>a. index (b_heap (run_tree b t) a)) (inodes_of t) =
       map (\<lambda>m. ntip (b_phy b) + b_j b + int m) [0..<length (inodes_of t)]"
  "shape_forest (b_heap b) par ts \<Longrightarrow> distinct (pre_forest ts) \<Longrightarrow>
     map (\<lambda>a. index (b_heap (run_forest b ts) a)) (tips_of_forest ts) =
       map (\<lambda>m. b_k b + int m) [0..<length (tips_of_forest ts)] \<and>
     map (\<lambda>a. index (b_heap (run_forest b ts) a)) (inodes_of_forest ts) =
       map (\<lambda>m. ntip (b_phy b) + b_j b + int m) [0..<length (inodes_of_forest ts)]"
proof (induction b t and b ts arbitrary: par nx and par rule: run_tree_run_forest.induct)
  case (1 b a ts)
  let ?b1 = "visit b a"
  from "1.prems" have sf: "shape_forest (b_heap b) (Some a) ts"
    and nd: "ndesc (b_heap b a) = int (length ts)"
    and d: "distinct (pre_forest ts)" and an: "a \<notin> set (pre_forest ts)" by auto
  have sf1: "shape_forest (b_heap ?b1) (Some a) ts"
    using sf shape_same_links(2)[OF same_links_visit] by blast
  note IH = "1.IH"[OF sf1 d]
  have ia: "index (b_heap (run_forest ?b1 ts) a) = index (b_heap ?b1 a)"
    using run_heap_frame(2)[OF an] by simp
  show ?case
  proof (cases "ts = []")
    case True
    then show ?thesis using nd by (simp add: visit_def set_index_def)
  next
    case False
    then have nd0: "ndesc (b_heap b a) \<noteq> 0" using nd by simp
    have j1: "b_j ?b1 = b_j b + 1" "b_k ?b1 = b_k b" "ntip (b_phy ?b1) = ntip (b_phy b)"
      "index (b_heap ?b1 a) = ntip (b_phy b) + b_j b"
      using nd0 by (simp_all add: visit_def set_index_def)
    have "map (\<lambda>m. ntip (b_phy b) + b_j b + int m) [0..<Suc (length (inodes_of_forest ts))] =
        (ntip (b_phy b) + b_j b) # map (\<lambda>m. ntip (b_phy b) + (b_j b + 1) + int m) [0..<length (inodes_of_forest ts)]"
      using map_upt_int_Suc[of "ntip (b_phy b) + b_j b" "length (inodes_of_forest ts)"]
      by (simp only: add.assoc)
    then show ?thesis
      using False IH ia j1 by (simp add: Let_def add.assoc del: upt_Suc)
  qed
next
  case (2 b)
  then show ?case by simp
next
  case (3 b t ts)
  let ?b1 = "run_tree b t"
  from "3.prems" have s1: "shape (b_heap b) par (first_addr ts) t"
    and s2: "shape_forest (b_heap b) par ts"
    and d1: "distinct (pre t)" and d2: "distinct (pre_forest ts)"
    and dj: "set (pre t) \<inter> set (pre_forest ts) = {}" by auto
  have s2': "shape_forest (b_heap ?b1) par ts"
    using s2 shape_same_links(2)[OF same_links_run(1)] by blast
  note IH1 = "3.IH"(1)[OF s1 d1]
  note IH2 = "3.IH"(2)[OF s2' d2]
  have fr: "\<And>x. x \<in> set (pre t) \<Longrightarrow> b_heap (run_forest ?b1 ts) x = b_heap ?b1 x"
    using dj run_heap_frame(2) by blast
  have sub: "set (tips_of t) \<subseteq> set (pre t)" "set (inodes_of t) \<subseteq> set (pre t)"
    using tips_inodes_subset(1)[of t] by auto
  have t1: "map (\<lambda>a. index (b_heap (run_forest ?b1 ts) a)) (tips_of t) =
      map (\<lambda>a. index (b_heap ?b1 a)) (tips_of t)"
    using fr sub by (auto intro!: map_cong)
  have t2: "map (\<lambda>a. index (b_heap (run_forest ?b1 ts) a)) (inodes_of t) =
      map (\<lambda>a. index (b_heap ?b1 a)) (inodes_of t)"
    using fr sub by (auto intro!: map_cong)
  have jk: "b_j ?b1 = b_j b + int (length (inodes_of t))" "b_k ?b1 = b_k b + int (length (tips_of t))"
    using run_jk(1)[OF s1] by auto
  have nt: "ntip (b_phy ?b1) = ntip (b_phy b)"
    using frame_ok_run(1)[of b t] by (simp add: frame_ok_def)
  have e1: "map (\<lambda>m. b_k b + int m) [0..<length (tips_of t) + length (tips_of_forest ts)] =
      map (\<lambda>m. b_k b + int m) [0..<length (tips_of t)] @
      map (\<lambda>m. (b_k b + int (length (tips_of t))) + int m) [0..<length (tips_of_forest ts)]"
    by (rule map_upt_int_add)
  have e2: "map (\<lambda>m. ntip (b_phy b) + b_j b + int m)
        [0..<length (inodes_of t) + length (inodes_of_forest ts)] =
      map (\<lambda>m. ntip (b_phy b) + b_j b + int m) [0..<length (inodes_of t)] @
      map (\<lambda>m. ntip (b_phy b) + (b_j b + int (length (inodes_of t))) + int m)
        [0..<length (inodes_of_forest ts)]"
    using map_upt_int_add[of "ntip (b_phy b) + b_j b"] by (simp add: add.assoc)
  show ?case
    using IH1 IH2 t1 t2 jk nt e1 e2 by simp
qed

lemma bounds_init:
  "bounds (build_init h rt (int (length (pre t))) (int (length (tips_of t))))
     (length (pre t)) (length (inodes_of t)) (length (tips_of t))"
  using length_pre_split(1)[of t]
  by (simp add: bounds_def build_init_def)

lemma phy_build_run:
  assumes sh: "shape h None None t" and fuel: "length (pre t) \<le> fuel"
  shows "phy_build fuel h (Some (addr t)) (int (length (pre t))) (int (length (tips_of t))) =
     Some (b_heap (built h t), b_phy (built h t))"
proof -
  let ?b0 = "build_init h (Some (addr t)) (int (length (pre t))) (int (length (tips_of t)))"
  let ?b1 = "run_tree ?b0 t"
  have sh0: "shape (b_heap ?b0) None None t" using sh by (simp add: build_init_def)
  have sl: "same_links h (b_heap ?b1)"
    using same_links_run(1)[of ?b0 t] by (simp add: build_init_def)
  have an: "anc (b_heap ?b1 (addr t)) = None" and nx: "next (b_heap ?b1 (addr t)) = None"
    using sl sh by (cases t; auto simp: same_links_def)+
  have c0: "fuel - rdepth t \<noteq> 0" using rdepth_less(1)[of t] fuel by simp
  have stop: "climb (fuel - rdepth t) (b_heap ?b1) (addr t) (last (pre t)) = Some (b_heap ?b1, addr t)"
    using an c0 by (intro climb_stop) auto
  have "build_loop fuel fuel ?b0 (Some (addr t)) =
      build_loop fuel ((fuel - length (pre t)) + length (pre t)) ?b0 (Some (addr t))"
    using fuel by simp
  also have "\<dots> = Some ?b1"
    using build_loop_run(1)[OF sh0 fuel bounds_init, of "fuel - length (pre t)"] stop nx
    by simp
  finally show ?thesis
    by (simp add: phy_build_def build_init_def built_def)
qed

lemma built_links: "same_links h (b_heap (built h t))"
  using same_links_run(1)[of "build_init h (Some (addr t)) (int (length (pre t))) (int (length (tips_of t)))" t]
  by (simp add: built_def build_init_def)

lemma built_counts:
  "ntip (b_phy (built h t)) = int (length (tips_of t))"
  "nnode (b_phy (built h t)) = int (length (pre t))"
  "root (b_phy (built h t)) = Some (addr t)"
  using frame_ok_run(1)[of "build_init h (Some (addr t)) (int (length (pre t))) (int (length (tips_of t)))" t]
  by (simp_all add: built_def build_init_def frame_ok_def)

lemma built_index:
  assumes "shape h None None t" "distinct (pre t)"
  shows "map (\<lambda>a. index (b_heap (built h t) a)) (tips_of t) = map int [0..<length (tips_of t)]"
    and "map (\<lambda>a. index (b_heap (built h t) a)) (inodes_of t) =
         map (\<lambda>m. int (length (tips_of t)) + int m) [0..<length (inodes_of t)]"
  using run_index(1)[of "build_init h (Some (addr t)) (int (length (pre t))) (int (length (tips_of t)))" None None t]
    assms
  by (simp_all add: built_def build_init_def)

lemma shape_ndesc:
  "shape h par nx t \<Longrightarrow> {a \<in> set (pre t). ndesc (h a) = 0} = set (tips_of t) \<and>
     {a \<in> set (pre t). ndesc (h a) \<noteq> 0} = set (inodes_of t)"
  "shape_forest h par ts \<Longrightarrow> {a \<in> set (pre_forest ts). ndesc (h a) = 0} = set (tips_of_forest ts) \<and>
     {a \<in> set (pre_forest ts). ndesc (h a) \<noteq> 0} = set (inodes_of_forest ts)"
proof (induction h par nx t and h par ts rule: shape_shape_forest.induct)
  case (1 h par nx a ts)
  then show ?case by (cases "ts = []") auto
next
  case (2 h par)
  then show ?case by simp
next
  case (3 h par t ts)
  then show ?case by auto
qed

lemma bij_betw_map:
  assumes "distinct xs" "map f xs = ys" "distinct ys"
  shows "bij_betw f (set xs) (set ys)"
proof -
  have "f ` set xs = set ys" using assms(2) by (metis set_map)
  moreover have "inj_on f (set xs)"
    using assms by (metis distinct_map)
  ultimately show ?thesis by (simp add: bij_betw_def)
qed

lemma image_int_shift: "(\<lambda>m. c + int m) ` {0..<n} = {c ..< c + int n}"
proof -
  have "(\<lambda>m. c + int m) ` {0..<n} = (\<lambda>x. c + x) ` (int ` {0..<n})"
    by (simp add: image_image)
  also have "int ` {0..<n} = {0 ..< int n}"
    using image_int_atLeastLessThan[of 0 n] by simp
  also have "(\<lambda>x. c + x) ` {0 ..< int n} = {c ..< c + int n}"
    using image_add_atLeastLessThan[of c 0 "int n"] by (simp add: add.commute)
  finally show ?thesis .
qed

text \<open>
  The indices on a well-formed input.  Let the heap hold a node graph of shape \<open>t\<close> with
  pairwise distinct nodes, let the node passed to \<^verbatim>\<open>phy_build\<close> be its root, without
  ancestor and without next sibling, and let the counts passed be the number of nodes
  and the number of tips of \<open>t\<close>.  Then \<^verbatim>\<open>phy_build\<close> returns a tree, the assigned indices
  are a bijection from the nodes onto \<open>{0..<nnode}\<close>, from the tips onto \<open>{0..<ntip}\<close> and
  from the internal nodes onto \<open>{ntip..<nnode}\<close>, and the root's index is \<open>ntip\<close> if the
  root has a child.
\<close>

theorem phy_build_index_bijection:
  assumes sh: "shape h None None t" and d: "distinct (pre t)" and fuel: "length (pre t) \<le> fuel"
  shows "\<exists>h' ph.
     phy_build fuel h (Some (addr t)) (int (length (pre t))) (int (length (tips_of t))) = Some (h', ph) \<and>
     nnode ph = int (length (pre t)) \<and> ntip ph = int (length (tips_of t)) \<and>
     bij_betw (\<lambda>a. index (h' a)) (set (pre t)) {0 ..< nnode ph} \<and>
     bij_betw (\<lambda>a. index (h' a)) {a \<in> set (pre t). ndesc (h' a) = 0} {0 ..< ntip ph} \<and>
     bij_betw (\<lambda>a. index (h' a)) {a \<in> set (pre t). ndesc (h' a) \<noteq> 0} {ntip ph ..< nnode ph} \<and>
     (ndesc (h' (addr t)) \<noteq> 0 \<longrightarrow> index (h' (addr t)) = ntip ph)"
proof -
  let ?h = "b_heap (built h t)" and ?ph = "b_phy (built h t)"
  let ?nt = "int (length (tips_of t))" and ?nn = "int (length (pre t))"
  let ?f = "\<lambda>a. index (?h a)"
  have sh': "shape ?h None None t"
    using sh shape_same_links(1)[OF built_links] by blast
  have sets: "{a \<in> set (pre t). ndesc (?h a) = 0} = set (tips_of t)"
    "{a \<in> set (pre t). ndesc (?h a) \<noteq> 0} = set (inodes_of t)"
    using shape_ndesc(1)[OF sh'] by auto
  have dd: "distinct (tips_of t)" "distinct (inodes_of t)" "set (tips_of t) \<inter> set (inodes_of t) = {}"
    using tips_inodes_disjoint(1)[OF d] by auto
  have nn: "?nn = ?nt + int (length (inodes_of t))"
    using length_pre_split(1)[of t] by simp
  have b1: "bij_betw ?f (set (tips_of t)) {0 ..< ?nt}"
  proof -
    have "bij_betw ?f (set (tips_of t)) (set (map int [0..<length (tips_of t)]))"
      by (rule bij_betw_map[OF dd(1) built_index(1)[OF sh d]]) (simp add: distinct_map)
    moreover have "set (map int [0..<length (tips_of t)]) = {0 ..< ?nt}"
      using image_int_shift[of 0 "length (tips_of t)"] by simp
    ultimately show ?thesis by simp
  qed
  have b2: "bij_betw ?f (set (inodes_of t)) {?nt ..< ?nn}"
  proof -
    have "bij_betw ?f (set (inodes_of t))
        (set (map (\<lambda>m. ?nt + int m) [0..<length (inodes_of t)]))"
      by (rule bij_betw_map[OF dd(2) built_index(2)[OF sh d]]) (simp add: distinct_map inj_on_def)
    moreover have "set (map (\<lambda>m. ?nt + int m) [0..<length (inodes_of t)]) = {?nt ..< ?nn}"
      using image_int_shift[of ?nt "length (inodes_of t)"] nn by simp
    ultimately show ?thesis by simp
  qed
  have b3: "bij_betw ?f (set (pre t)) {0 ..< ?nn}"
  proof -
    have "bij_betw ?f (set (tips_of t) \<union> set (inodes_of t)) ({0 ..< ?nt} \<union> {?nt ..< ?nn})"
      by (rule bij_betw_combine[OF b1 b2]) auto
    moreover have "{0 ..< ?nt} \<union> {?nt ..< ?nn} = {0 ..< ?nn}"
      using nn by auto
    ultimately show ?thesis
      using tips_inodes_subset(1)[of t] by simp
  qed
  have rt: "ndesc (?h (addr t)) \<noteq> 0 \<longrightarrow> index (?h (addr t)) = ?nt"
  proof
    assume nd: "ndesc (?h (addr t)) \<noteq> 0"
    obtain a ts where t: "t = Node a ts" by (cases t)
    with nd sh' have "ts \<noteq> []" by auto
    then have "inodes_of t = a # inodes_of_forest ts" using t by simp
    with built_index(2)[OF sh d] show "index (?h (addr t)) = ?nt"
      using t by (simp add: upt_conv_Cons del: upt_Suc)
  qed
  show ?thesis
    using phy_build_run[OF sh fuel] built_counts[of h t] b1 b2 b3 rt sets
    by simp
qed

theorem phy_build_index_bijection_witness:
  "\<exists>h' ph.
     phy_build 3 cherry_heap (Some 0) 3 2 = Some (h', ph) \<and>
     nnode ph = 3 \<and> ntip ph = 2 \<and>
     bij_betw (\<lambda>a. index (h' a)) {0, 1, 2} {0 ..< nnode ph} \<and>
     bij_betw (\<lambda>a. index (h' a)) {a \<in> {0, 1, 2}. ndesc (h' a) = 0} {0 ..< ntip ph} \<and>
     bij_betw (\<lambda>a. index (h' a)) {a \<in> {0, 1, 2}. ndesc (h' a) \<noteq> 0} {ntip ph ..< nnode ph} \<and>
     (ndesc (h' (addr (Node 0 [Node 1 [], Node 2 []]))) \<noteq> 0 \<longrightarrow> index (h' 0) = ntip ph)"
proof -
  have sh: "shape cherry_heap None None (Node 0 [Node 1 [], Node 2 []])"
    by (simp add: cherry_heap_def node_init_def)
  have d: "distinct (pre (Node 0 [Node 1 [], Node 2 []]))" by simp
  have f: "length (pre (Node 0 [Node 1 [], Node 2 []])) \<le> 3" by simp
  show ?thesis
    using phy_build_index_bijection[OF sh d f] by (simp add: insert_commute)
qed

text \<open>
  C6.  Two trees that \<^verbatim>\<open>phy_build\<close> builds and that break the index scheme.  For a
  single node, passed with \<open>nnode = ntip = 1\<close>, the root is a tip and receives index 0,
  not \<open>ntip\<close>.  For the string \<^verbatim>\<open>(A,(B,C);\<close> the reader hands the inner node at address 2
  (whose ancestor is the node at address 0) to \<^verbatim>\<open>phy_build\<close> with the counts 5 and 3 of
  the whole graph; the build succeeds, the nodes at the addresses 0 and 1 keep the
  index \<open>-1\<close> that \<^verbatim>\<open>node_new\<close> gave them, and only the indices 3, 0 and 1 are assigned.
\<close>

theorem phy_build_index_scheme_broken:
  "(case phy_build 1 (\<lambda>_. node_init) (Some 0) 1 1 of
      None \<Rightarrow> False
    | Some (h', ph) \<Rightarrow> root ph = Some 0 \<and> nnode ph = 1 \<and> ntip ph = 1 \<and>
        index (h' 0) = 0 \<and> index (h' 0) \<noteq> ntip ph) \<and>
   (case phy_read_newickstr 20 store_init ''(A,(B,C);'' of
      Some (s, Some ph) \<Rightarrow>
        root ph = Some 2 \<and> anc (heap s 2) = Some 0 \<and> anc (heap s 1) = Some 0 \<and>
        nnode ph = 5 \<and> ntip ph = 3 \<and>
        map (\<lambda>a. index (heap s a)) [0, 1, 2, 3, 4] = [-1, -1, 3, 0, 1]
    | _ \<Rightarrow> False)"
  by (simp add: node_defs reader_defs build_defs fuel_numeral Let_def
      cong: bind_weak_cong let_weak_cong prod.case_cong_weak)

section \<open>Cursor traversal of a built tree\<close>

lemma run_nodes:
  "0 \<le> b_i b \<Longrightarrow> nat (b_i b) + length (pre t) \<le> length (nodes (b_phy b)) \<Longrightarrow>
   take (nat (b_i b) + length (pre t)) (nodes (b_phy (run_tree b t))) =
     take (nat (b_i b)) (nodes (b_phy b)) @ map Some (pre t)"
  "0 \<le> b_i b \<Longrightarrow> nat (b_i b) + length (pre_forest ts) \<le> length (nodes (b_phy b)) \<Longrightarrow>
   take (nat (b_i b) + length (pre_forest ts)) (nodes (b_phy (run_forest b ts))) =
     take (nat (b_i b)) (nodes (b_phy b)) @ map Some (pre_forest ts)"
proof (induction b t and b ts rule: run_tree_run_forest.induct)
  case (1 b a ts)
  let ?b1 = "visit b a"
  have i1: "b_i ?b1 = b_i b + 1" by (simp add: visit_def)
  have n1: "nodes (b_phy ?b1) = (nodes (b_phy b))[nat (b_i b) := Some a]" by (simp add: visit_def)
  have lt: "nat (b_i b) < length (nodes (b_phy b))" using "1.prems" by simp
  have tk: "take (nat (b_i ?b1)) (nodes (b_phy ?b1)) = take (nat (b_i b)) (nodes (b_phy b)) @ [Some a]"
    using "1.prems"(1) lt i1 n1
    by (simp add: nat_add_distrib take_Suc_conv_app_nth)
  have "take (nat (b_i ?b1) + length (pre_forest ts)) (nodes (b_phy (run_forest ?b1 ts))) =
      take (nat (b_i ?b1)) (nodes (b_phy ?b1)) @ map Some (pre_forest ts)"
    using "1.prems" i1 n1 by (intro "1.IH") (simp_all add: nat_add_distrib)
  then show ?case
    using tk i1 "1.prems"(1) by (simp add: Let_def nat_add_distrib)
next
  case (2 b)
  then show ?case by simp
next
  case (3 b t ts)
  let ?b1 = "run_tree b t"
  have i1: "b_i ?b1 = b_i b + int (length (pre t))" by (rule run_i)
  have len: "length (nodes (b_phy ?b1)) = length (nodes (b_phy b))"
    using frame_ok_run(1)[of b t] by (simp add: frame_ok_def)
  have a: "take (nat (b_i b) + length (pre t)) (nodes (b_phy ?b1)) =
      take (nat (b_i b)) (nodes (b_phy b)) @ map Some (pre t)"
    using "3.prems" by (intro "3.IH"(1)) simp_all
  have b: "take (nat (b_i ?b1) + length (pre_forest ts)) (nodes (b_phy (run_forest ?b1 ts))) =
      take (nat (b_i ?b1)) (nodes (b_phy ?b1)) @ map Some (pre_forest ts)"
    using "3.prems" i1 len by (intro "3.IH"(2)) (simp_all add: nat_add_distrib)
  show ?case
    using a b i1 "3.prems"(1) by (simp add: nat_add_distrib add.assoc)
qed

lemma run_inodes:
  "shape (b_heap b) par nx t \<Longrightarrow> 0 \<le> b_j b \<Longrightarrow>
   nat (b_j b) + length (inodes_of t) \<le> length (inodes (b_phy b)) \<Longrightarrow>
   take (nat (b_j b) + length (inodes_of t)) (inodes (b_phy (run_tree b t))) =
     take (nat (b_j b)) (inodes (b_phy b)) @ map Some (inodes_of t)"
  "shape_forest (b_heap b) par ts \<Longrightarrow> 0 \<le> b_j b \<Longrightarrow>
   nat (b_j b) + length (inodes_of_forest ts) \<le> length (inodes (b_phy b)) \<Longrightarrow>
   take (nat (b_j b) + length (inodes_of_forest ts)) (inodes (b_phy (run_forest b ts))) =
     take (nat (b_j b)) (inodes (b_phy b)) @ map Some (inodes_of_forest ts)"
proof (induction b t and b ts arbitrary: par nx and par rule: run_tree_run_forest.induct)
  case (1 b a ts)
  let ?b1 = "visit b a"
  from "1.prems"(1) have sf: "shape_forest (b_heap b) (Some a) ts"
    and nd: "ndesc (b_heap b a) = int (length ts)" by auto
  have sf1: "shape_forest (b_heap ?b1) (Some a) ts"
    using sf shape_same_links(2)[OF same_links_visit] by blast
  show ?case
  proof (cases "ts = []")
    case True
    then show ?thesis using nd by (simp add: visit_def)
  next
    case False
    then have nd0: "ndesc (b_heap b a) \<noteq> 0" using nd by simp
    have j1: "b_j ?b1 = b_j b + 1" using nd0 by (simp add: visit_def)
    have n1: "inodes (b_phy ?b1) = (inodes (b_phy b))[nat (b_j b) := Some a]"
      using nd0 by (simp add: visit_def)
    have lt: "nat (b_j b) < length (inodes (b_phy b))" using "1.prems" False by simp
    have tk: "take (nat (b_j ?b1)) (inodes (b_phy ?b1)) = take (nat (b_j b)) (inodes (b_phy b)) @ [Some a]"
      using "1.prems"(2) lt j1 n1
      by (simp add: nat_add_distrib take_Suc_conv_app_nth)
    have "take (nat (b_j ?b1) + length (inodes_of_forest ts)) (inodes (b_phy (run_forest ?b1 ts))) =
        take (nat (b_j ?b1)) (inodes (b_phy ?b1)) @ map Some (inodes_of_forest ts)"
      using "1.prems" j1 n1 False by (intro "1.IH"[OF sf1]) (simp_all add: nat_add_distrib)
    then show ?thesis
      using tk j1 "1.prems"(2) False by (simp add: Let_def nat_add_distrib)
  qed
next
  case (2 b)
  then show ?case by simp
next
  case (3 b t ts)
  let ?b1 = "run_tree b t"
  from "3.prems"(1) have s1: "shape (b_heap b) par (first_addr ts) t"
    and s2: "shape_forest (b_heap b) par ts" by auto
  have s2': "shape_forest (b_heap ?b1) par ts"
    using s2 shape_same_links(2)[OF same_links_run(1)] by blast
  have j1: "b_j ?b1 = b_j b + int (length (inodes_of t))" using run_jk(1)[OF s1] by simp
  have len: "length (inodes (b_phy ?b1)) = length (inodes (b_phy b))"
    using frame_ok_run(1)[of b t] by (simp add: frame_ok_def)
  have a: "take (nat (b_j b) + length (inodes_of t)) (inodes (b_phy ?b1)) =
      take (nat (b_j b)) (inodes (b_phy b)) @ map Some (inodes_of t)"
    using "3.prems" by (intro "3.IH"(1)[OF s1]) simp_all
  have b: "take (nat (b_j ?b1) + length (inodes_of_forest ts)) (inodes (b_phy (run_forest ?b1 ts))) =
      take (nat (b_j ?b1)) (inodes (b_phy ?b1)) @ map Some (inodes_of_forest ts)"
    using "3.prems" j1 len by (intro "3.IH"(2)[OF s2']) (simp_all add: nat_add_distrib)
  show ?case
    using a b j1 "3.prems"(2) by (simp add: nat_add_distrib add.assoc)
qed

lemma built_nodes:
  "nodes (b_phy (built h t)) = map Some (pre t)"
proof -
  let ?b0 = "build_init h (Some (addr t)) (int (length (pre t))) (int (length (tips_of t)))"
  have "take (nat (b_i ?b0) + length (pre t)) (nodes (b_phy (run_tree ?b0 t))) =
     take (nat (b_i ?b0)) (nodes (b_phy ?b0)) @ map Some (pre t)"
    by (rule run_nodes(1)) (simp_all add: build_init_def)
  moreover have "length (nodes (b_phy (run_tree ?b0 t))) = length (pre t)"
    using frame_ok_run(1)[of ?b0 t] by (simp add: frame_ok_def build_init_def)
  ultimately show ?thesis by (simp add: built_def build_init_def)
qed

lemma built_inodes:
  assumes "shape h None None t"
  shows "inodes (b_phy (built h t)) = map Some (inodes_of t)"
proof -
  let ?b0 = "build_init h (Some (addr t)) (int (length (pre t))) (int (length (tips_of t)))"
  have l0: "length (inodes (b_phy ?b0)) = length (inodes_of t)"
    using length_pre_split(1)[of t] by (simp add: build_init_def)
  have "take (nat (b_j ?b0) + length (inodes_of t)) (inodes (b_phy (run_tree ?b0 t))) =
     take (nat (b_j ?b0)) (inodes (b_phy ?b0)) @ map Some (inodes_of t)"
    using assms l0 by (intro run_inodes(1)[where par = None and nx = None]) (simp_all add: build_init_def)
  moreover have "length (inodes (b_phy (run_tree ?b0 t))) = length (inodes_of t)"
    using frame_ok_run(1)[of ?b0 t] l0 by (simp add: frame_ok_def)
  ultimately show ?thesis by (simp add: built_def build_init_def)
qed

lemma run_vseq_last:
  "shape (b_heap b) par nx t \<Longrightarrow>
   bounds b (length (pre t)) (length (inodes_of t)) (length (tips_of t)) \<Longrightarrow>
   vseq (b_phy (run_tree b t)) ! nat (index (b_heap (run_tree b t) (last (pre t)))) =
     b_i b + int (length (pre t)) - 1"
  "ts \<noteq> [] \<Longrightarrow> shape_forest (b_heap b) par ts \<Longrightarrow>
   bounds b (length (pre_forest ts)) (length (inodes_of_forest ts)) (length (tips_of_forest ts)) \<Longrightarrow>
   vseq (b_phy (run_forest b ts)) ! nat (index (b_heap (run_forest b ts) (last (pre_forest ts)))) =
     b_i b + int (length (pre_forest ts)) - 1"
proof (induction b t and b ts arbitrary: par nx and par rule: run_tree_run_forest.induct)
  case (1 b a ts)
  let ?b1 = "visit b a"
  from "1.prems"(1) have sf: "shape_forest (b_heap b) (Some a) ts"
    and nd: "ndesc (b_heap b a) = int (length ts)" by auto
  have sf1: "shape_forest (b_heap ?b1) (Some a) ts"
    using sf shape_same_links(2)[OF same_links_visit] by blast
  show ?case
  proof (cases "ts = []")
    case True
    have "nat (b_k b) < length (vseq (b_phy b))"
      using "1.prems"(2) True by (auto simp: bounds_def)
    then show ?thesis
      using nd True by (simp add: visit_def set_index_def)
  next
    case False
    have bnd: "bounds ?b1 (length (pre_forest ts)) (length (inodes_of_forest ts))
        (length (tips_of_forest ts))"
      using "1.prems"(2) nd False
      by (intro bounds_visit[where m = "length (inodes_of (Node a ts))"
            and k = "length (tips_of (Node a ts))"]) auto
    have i1: "b_i ?b1 = b_i b + 1" by (simp add: visit_def)
    show ?thesis
      using "1.IH"[OF False sf1 bnd] False i1 by (simp add: Let_def)
  qed
next
  case (2 b)
  then show ?case by simp
next
  case (3 b t ts)
  let ?b1 = "run_tree b t"
  from "3.prems"(2) have s1: "shape (b_heap b) par (first_addr ts) t"
    and s2: "shape_forest (b_heap b) par ts" by auto
  have bnd1: "bounds b (length (pre t)) (length (inodes_of t)) (length (tips_of t))"
    using "3.prems"(3) by (rule bounds_mono) auto
  show ?case
  proof (cases "ts = []")
    case True
    then show ?thesis using "3.IH"(1)[OF s1 bnd1] by simp
  next
    case False
    have s2': "shape_forest (b_heap ?b1) par ts"
      using s2 shape_same_links(2)[OF same_links_run(1)] by blast
    have bnd2: "bounds ?b1 (length (pre_forest ts)) (length (inodes_of_forest ts))
        (length (tips_of_forest ts))"
      using "3.prems"(3) s1 by (intro bounds_run_tree) auto
    have i1: "b_i ?b1 = b_i b + int (length (pre t))" by (rule run_i)
    show ?thesis
      using "3.IH"(2)[OF False s2' bnd2] False i1 by simp
  qed
qed

lemma run_vseq_frame:
  "shape (b_heap b) par nx t \<Longrightarrow> 0 \<le> b_k b \<Longrightarrow> 0 \<le> ntip (b_phy b) + b_j b \<Longrightarrow>
   n \<notin> {nat (b_k b) ..< nat (b_k b) + length (tips_of t)} \<Longrightarrow>
   n \<notin> {nat (ntip (b_phy b) + b_j b) ..< nat (ntip (b_phy b) + b_j b) + length (inodes_of t)} \<Longrightarrow>
   vseq (b_phy (run_tree b t)) ! n = vseq (b_phy b) ! n"
  "shape_forest (b_heap b) par ts \<Longrightarrow> 0 \<le> b_k b \<Longrightarrow> 0 \<le> ntip (b_phy b) + b_j b \<Longrightarrow>
   n \<notin> {nat (b_k b) ..< nat (b_k b) + length (tips_of_forest ts)} \<Longrightarrow>
   n \<notin> {nat (ntip (b_phy b) + b_j b) ..< nat (ntip (b_phy b) + b_j b) + length (inodes_of_forest ts)} \<Longrightarrow>
   vseq (b_phy (run_forest b ts)) ! n = vseq (b_phy b) ! n"
proof (induction b t and b ts arbitrary: par nx and par rule: run_tree_run_forest.induct)
  case (1 b a ts)
  let ?b1 = "visit b a"
  from "1.prems"(1) have sf: "shape_forest (b_heap b) (Some a) ts"
    and nd: "ndesc (b_heap b a) = int (length ts)" by auto
  have sf1: "shape_forest (b_heap ?b1) (Some a) ts"
    using sf shape_same_links(2)[OF same_links_visit] by blast
  show ?case
  proof (cases "ts = []")
    case True
    then show ?thesis
      using nd "1.prems" by (simp add: visit_def)
  next
    case False
    then have nd0: "ndesc (b_heap b a) \<noteq> 0" using nd by simp
    have v1: "b_k ?b1 = b_k b" "b_j ?b1 = b_j b + 1" "ntip (b_phy ?b1) = ntip (b_phy b)"
      "vseq (b_phy ?b1) = (vseq (b_phy b))[nat (ntip (b_phy b) + b_j b) := b_i b]"
      using nd0 by (simp_all add: visit_def)
    have "vseq (b_phy (run_forest ?b1 ts)) ! n = vseq (b_phy ?b1) ! n"
      using "1.prems" v1 False
      by (intro "1.IH"[OF sf1]) (auto simp: nat_add_distrib)
    moreover have "n \<noteq> nat (ntip (b_phy b) + b_j b)"
      using "1.prems"(5) False by auto
    ultimately show ?thesis
      using v1 False by (simp add: Let_def)
  qed
next
  case (2 b)
  then show ?case by simp
next
  case (3 b t ts)
  let ?b1 = "run_tree b t"
  from "3.prems"(1) have s1: "shape (b_heap b) par (first_addr ts) t"
    and s2: "shape_forest (b_heap b) par ts" by auto
  have s2': "shape_forest (b_heap ?b1) par ts"
    using s2 shape_same_links(2)[OF same_links_run(1)] by blast
  have jk: "b_j ?b1 = b_j b + int (length (inodes_of t))" "b_k ?b1 = b_k b + int (length (tips_of t))"
    using run_jk(1)[OF s1] by auto
  have nt: "ntip (b_phy ?b1) = ntip (b_phy b)"
    using frame_ok_run(1)[of b t] by (simp add: frame_ok_def)
  have a: "vseq (b_phy ?b1) ! n = vseq (b_phy b) ! n"
    using "3.prems" by (intro "3.IH"(1)[OF s1]) auto
  have b: "vseq (b_phy (run_forest ?b1 ts)) ! n = vseq (b_phy ?b1) ! n"
    using "3.prems" jk nt by (intro "3.IH"(2)[OF s2']) (auto simp: nat_add_distrib)
  show ?case using a b by simp
qed

lemma subtrees_pre:
  "s \<in> set (subtrees t) \<Longrightarrow> set (pre s) \<subseteq> set (pre t)"
  "s \<in> set (subtrees_forest ts) \<Longrightarrow> set (pre s) \<subseteq> set (pre_forest ts)"
  by (induction t and ts rule: subtrees_subtrees_forest.induct) auto

lemma addr_in_pre [simp]: "addr t \<in> set (pre t)"
  by (cases t) simp

lemma run_lastvisit:
  "distinct (pre t) \<Longrightarrow> s \<in> set (subtrees t) \<Longrightarrow> kids s \<noteq> [] \<Longrightarrow>
   lastvisit (b_heap (run_tree b t) (addr s)) = Some (last (pre s))"
  "distinct (pre_forest ts) \<Longrightarrow> s \<in> set (subtrees_forest ts) \<Longrightarrow> kids s \<noteq> [] \<Longrightarrow>
   lastvisit (b_heap (run_forest b ts) (addr s)) = Some (last (pre s))"
proof (induction b t and b ts rule: run_tree_run_forest.induct)
  case (1 b a ts)
  show ?case
  proof (cases "s = Node a ts")
    case True
    then show ?thesis using "1.prems"(3) by (simp add: Let_def set_lastvisit_def)
  next
    case False
    then have s: "s \<in> set (subtrees_forest ts)" using "1.prems"(2) by simp
    then have "addr s \<in> set (pre_forest ts)" using subtrees_pre(2)[OF s] addr_in_pre by blast
    then have ne: "addr s \<noteq> a" using "1.prems"(1) by auto
    have "lastvisit (b_heap (run_forest (visit b a) ts) (addr s)) = Some (last (pre s))"
      using "1.prems" s by (intro "1.IH") auto
    then show ?thesis using ne s by (auto simp: Let_def set_lastvisit_def)
  qed
next
  case (2 b)
  then show ?case by simp
next
  case (3 b t ts)
  from "3.prems"(1) have d1: "distinct (pre t)" and d2: "distinct (pre_forest ts)"
    and dj: "set (pre t) \<inter> set (pre_forest ts) = {}" by auto
  show ?case
  proof (cases "s \<in> set (subtrees t)")
    case True
    then have "addr s \<in> set (pre t)" using subtrees_pre(1)[OF True] addr_in_pre by blast
    then have "addr s \<notin> set (pre_forest ts)" using dj by auto
    then have "b_heap (run_forest (run_tree b t) ts) (addr s) = b_heap (run_tree b t) (addr s)"
      by (rule run_heap_frame(2))
    then show ?thesis using "3.IH"(1)[OF d1 True "3.prems"(3)] by simp
  next
    case False
    then have "s \<in> set (subtrees_forest ts)" using "3.prems"(2) by simp
    then show ?thesis using "3.IH"(2)[OF d2 _ "3.prems"(3)] by simp
  qed
qed

lemma built_lastvisit:
  "distinct (pre t) \<Longrightarrow> s \<in> set (subtrees t) \<Longrightarrow> kids s \<noteq> [] \<Longrightarrow>
   lastvisit (b_heap (built h t) (addr s)) = Some (last (pre s))"
  unfolding built_def by (rule run_lastvisit(1))

lemma built_vseq_last:
  assumes "shape h None None t"
  shows "vseq (b_phy (built h t)) ! nat (index (b_heap (built h t) (last (pre t)))) =
     int (length (pre t)) - 1"
proof -
  let ?b0 = "build_init h (Some (addr t)) (int (length (pre t))) (int (length (tips_of t)))"
  have "shape (b_heap ?b0) None None t" using assms by (simp add: build_init_def)
  from run_vseq_last(1)[OF this bounds_init] show ?thesis
    by (simp add: built_def build_init_def)
qed

lemma built_vseq_root:
  assumes sh: "shape h None None t" and k: "kids t \<noteq> []"
  shows "vseq (b_phy (built h t)) ! length (tips_of t) = 0"
proof -
  obtain a ts where t: "t = Node a ts" by (cases t)
  with k have ts: "ts \<noteq> []" by simp
  let ?b0 = "build_init h (Some a) (int (length (pre t))) (int (length (tips_of t)))"
  let ?b1 = "visit ?b0 a"
  from sh t have sf: "shape_forest h (Some a) ts" and nd: "ndesc (h a) = int (length ts)" by auto
  have nd0: "ndesc (b_heap ?b0 a) \<noteq> 0" using nd ts by (simp add: build_init_def)
  have sf1: "shape_forest (b_heap ?b1) (Some a) ts"
    using sf shape_same_links(2)[OF same_links_visit, of ?b0 a] by (simp add: build_init_def)
  have v1: "b_k ?b1 = 0" "b_j ?b1 = 1" "ntip (b_phy ?b1) = int (length (tips_of t))"
    "vseq (b_phy ?b1) = (replicate (length (pre t)) 0)[length (tips_of t) := 0]"
    using nd0 by (simp_all add: visit_def build_init_def)
  have tl: "length (tips_of_forest ts) = length (tips_of t)" using t ts by simp
  have "vseq (b_phy (run_forest ?b1 ts)) ! length (tips_of t) = vseq (b_phy ?b1) ! length (tips_of t)"
    using v1 tl by (intro run_vseq_frame(2)[OF sf1]) (auto simp: nat_add_distrib)
  also have "\<dots> = 0"
  proof -
    have "length (tips_of t) < length (pre t)"
      using length_pre_split(1)[of t] t ts by simp
    then show ?thesis using v1(4) by simp
  qed
  finally show ?thesis
    using t ts by (simp add: built_def Let_def)
qed

lemma steps_none:
  "c_next c = None \<Longrightarrow> cursor_steps k ph c = Some (replicate k None)"
  by (induction k) (simp_all add: phy_cursor_step_def)

lemma steps_pre:
  assumes d: "distinct ys"
  shows "(if c_visit c = ALL_NODES then nodes ph else inodes ph) = map Some ys \<Longrightarrow>
    n = length ys - m \<Longrightarrow> m < length ys \<Longrightarrow> c_order c = PREORDER \<Longrightarrow>
    c_next c = Some (ys ! m) \<Longrightarrow> c_cursor c = int m + 1 \<Longrightarrow> c_end c = Some (last ys) \<Longrightarrow>
    cursor_steps (n + k) ph c = Some (map Some (drop m ys) @ replicate k None)"
proof (induction n arbitrary: m c)
  case 0
  then show ?case by simp
next
  case (Suc n)
  have ne0: "ys \<noteq> []" using Suc.prems(3) by auto
  have lst: "last ys = ys ! (length ys - 1)"
    using ne0 by (simp add: last_conv_nth)
  show ?case
  proof (cases "m = length ys - 1")
    case True
    then have n0: "n = 0" using Suc.prems(2,3) by simp
    have dr: "drop m ys = [ys ! m]"
      using True Suc.prems(3) Cons_nth_drop_Suc[of m ys] by simp
    have "phy_cursor_step ph c = Some (c\<lparr> c_begin := None, c_end := None, c_next := None \<rparr>, Some (ys ! m))"
      using Suc.prems True lst by (simp add: phy_cursor_step_def)
    then show ?thesis
      using n0 dr steps_none[of "c\<lparr> c_begin := None, c_end := None, c_next := None \<rparr>" k ph]
      by simp
  next
    case False
    then have m1: "Suc m < length ys" using Suc.prems(3) by simp
    have ne: "ys ! m \<noteq> last ys"
      using d False Suc.prems(3) lst by (simp add: nth_eq_iff_index_eq)
    let ?c1 = "c\<lparr> c_next := Some (ys ! Suc m), c_cursor := c_cursor c + 1 \<rparr>"
    have ag: "arr_get (if c_visit c = ALL_NODES then nodes ph else inodes ph) (c_cursor c) =
        Some (Some (ys ! Suc m))"
      using Suc.prems(1,6) m1 by (simp add: arr_get_def nat_add_distrib)
    have st: "phy_cursor_step ph c = Some (?c1, Some (ys ! m))"
      using Suc.prems(4,5,7) ne ag by (simp add: phy_cursor_step_def)
    have "cursor_steps (n + k) ph ?c1 = Some (map Some (drop (Suc m) ys) @ replicate k None)"
      using Suc.prems m1 by (intro Suc.IH) simp_all
    moreover have "Suc n + k = Suc (n + k)" by simp
    moreover have "drop m ys = ys ! m # drop (Suc m) ys"
      using Cons_nth_drop_Suc[OF Suc.prems(3)] by simp
    ultimately show ?thesis
      using st by simp
  qed
qed

lemma steps_post:
  assumes d: "distinct ys"
  shows "(if c_visit c = ALL_NODES then nodes ph else inodes ph) = map Some ys \<Longrightarrow>
    m < length ys \<Longrightarrow> c_order c \<noteq> PREORDER \<Longrightarrow>
    c_next c = Some (ys ! m) \<Longrightarrow> c_cursor c = int m - 1 \<Longrightarrow> c_end c = Some (ys ! 0) \<Longrightarrow>
    cursor_steps (Suc m + k) ph c = Some (map Some (rev (take (Suc m) ys)) @ replicate k None)"
proof (induction m arbitrary: c)
  case 0
  have "phy_cursor_step ph c = Some (c\<lparr> c_begin := None, c_end := None, c_next := None \<rparr>, Some (ys ! 0))"
    using 0 by (simp add: phy_cursor_step_def)
  moreover have "take (Suc 0) ys = [ys ! 0]"
    using "0.prems"(2) by (cases ys) auto
  ultimately show ?case
    using steps_none[of "c\<lparr> c_begin := None, c_end := None, c_next := None \<rparr>" k ph]
    by simp
next
  case (Suc m)
  have "0 < length ys" using Suc.prems(2) by (cases ys) auto
  then have ne: "ys ! Suc m \<noteq> ys ! 0"
    using d Suc.prems(2) nth_eq_iff_index_eq[of ys "Suc m" 0] by simp
  let ?c1 = "c\<lparr> c_next := Some (ys ! m), c_cursor := c_cursor c - 1 \<rparr>"
  have ag: "arr_get (if c_visit c = ALL_NODES then nodes ph else inodes ph) (c_cursor c) =
      Some (Some (ys ! m))"
    using Suc.prems(1,2,5) by (simp add: arr_get_def)
  have st: "phy_cursor_step ph c = Some (?c1, Some (ys ! Suc m))"
    using Suc.prems(3,4,6) ne ag by (simp add: phy_cursor_step_def)
  have ih: "cursor_steps (Suc m + k) ph ?c1 = Some (map Some (rev (take (Suc m) ys)) @ replicate k None)"
    using Suc.prems by (intro Suc.IH) simp_all
  have "cursor_steps (Suc (Suc m) + k) ph c =
      Option.bind (phy_cursor_step ph c)
        (\<lambda>(c1, r). Option.bind (cursor_steps (Suc m + k) ph c1) (\<lambda>rs. Some (r # rs)))"
    by (simp only: add_Suc cursor_steps.simps)
  also have "\<dots> = Option.bind (cursor_steps (Suc m + k) ph ?c1) (\<lambda>rs. Some (Some (ys ! Suc m) # rs))"
    by (simp only: st Option.bind_lunit prod.case)
  also have "\<dots> = Some (Some (ys ! Suc m) # (map Some (rev (take (Suc m) ys)) @ replicate k None))"
    by (simp only: ih Option.bind_lunit)
  finally show ?case
    using take_Suc_conv_app_nth[OF Suc.prems(2)] by (simp del: cursor_steps.simps)
qed

lemma scan_siblings_forest:
  "shape_forest H par ts \<Longrightarrow> length ts < fuel \<Longrightarrow>
   scan_siblings fuel H (first_addr ts) p = Some (pick ts p)"
proof (induction ts arbitrary: fuel p)
  case Nil
  then show ?case by (cases fuel) auto
next
  case (Cons t ts)
  then obtain f where f: "fuel = Suc f" by (cases fuel) auto
  obtain a cs where t: "t = Node a cs" by (cases t)
  from Cons.prems(1) t have nx: "next (H a) = first_addr ts" and nd: "ndesc (H a) = int (length cs)"
    and sf: "shape_forest H par ts" by auto
  have "scan_siblings f H (first_addr ts) (if cs \<noteq> [] then Some a else p) =
      Some (pick ts (if cs \<noteq> [] then Some a else p))"
    using Cons.prems(2) f by (intro Cons.IH[OF sf]) simp
  then show ?case using f t nx nd by simp
qed

lemma inodes_of_empty [simp]: "(inodes_of t = []) = (kids t = [])"
  by (cases t) auto

lemma pick_spec:
  "(inodes_of_forest ts = [] \<longrightarrow> pick ts p = p) \<and>
   (inodes_of_forest ts \<noteq> [] \<longrightarrow>
      (\<exists>u \<in> set ts. kids u \<noteq> [] \<and> pick ts p = Some (addr u) \<and>
         last (inodes_of_forest ts) = last (inodes_of u)))"
proof (induction ts arbitrary: p)
  case Nil
  then show ?case by simp
next
  case (Cons t ts)
  show ?case
  proof (cases "inodes_of_forest ts = []")
    case True
    then show ?thesis using Cons.IH[of "if kids t \<noteq> [] then Some (addr t) else p"] by auto
  next
    case False
    then show ?thesis using Cons.IH[of "if kids t \<noteq> [] then Some (addr t) else p"] by auto
  qed
qed

lemma shape_forest_mem:
  "shape_forest H par ts \<Longrightarrow> u \<in> set ts \<Longrightarrow> \<exists>nx. shape H par nx u"
  by (induction ts) auto

lemma subtrees_self [simp]: "t \<in> set (subtrees t)"
  by (cases t) simp

lemma subtrees_forest_mem: "u \<in> set ts \<Longrightarrow> set (subtrees u) \<subseteq> set (subtrees_forest ts)"
  by (induction ts) auto

lemma lv_ok_child: "lv_ok H (Node a ts) \<Longrightarrow> u \<in> set ts \<Longrightarrow> lv_ok H u"
  using subtrees_forest_mem[of u ts] by (auto simp: lv_ok_def)

lemma length_pre_forest_mem: "u \<in> set ts \<Longrightarrow> length (pre u) \<le> length (pre_forest ts)"
  by (induction ts) auto

lemma length_le_pre_forest: "length ts \<le> length (pre_forest ts)"
proof (induction ts)
  case Nil
  then show ?case by simp
next
  case (Cons t ts)
  have "1 \<le> length (pre t)" by (cases t) simp
  then show ?case using Cons by simp
qed

lemma inodes_forest_last_tip:
  "ts \<noteq> [] \<Longrightarrow> kids (last ts) \<noteq> [] \<Longrightarrow> inodes_of_forest ts \<noteq> []"
proof (induction ts)
  case Nil
  then show ?case by simp
next
  case (Cons t ts)
  then show ?case by (cases "ts = []") auto
qed

lemma last_inodes_forest:
  "ts \<noteq> [] \<Longrightarrow> kids (last ts) \<noteq> [] \<Longrightarrow> last (inodes_of_forest ts) = last (inodes_of (last ts))"
proof (induction ts)
  case Nil
  then show ?case by simp
next
  case (Cons t ts)
  show ?case
  proof (cases "ts = []")
    case True
    then show ?thesis by simp
  next
    case False
    then have "inodes_of_forest ts \<noteq> []"
      using Cons.prems inodes_forest_last_tip[of ts] by simp
    then show ?thesis using Cons False by simp
  qed
qed

lemma descend_internal_tree:
  "shape H par nx t \<Longrightarrow> lv_ok H t \<Longrightarrow> kids t \<noteq> [] \<Longrightarrow> length (pre t) \<le> fuel \<Longrightarrow>
   length (pre t) \<le> cf \<Longrightarrow>
   \<exists>p. descend_internal cf fuel H (Some (addr t)) = Some p \<and> ndesc (H p) = 0 \<and>
       anc (H p) = Some (last (inodes_of t))"
proof (induction t arbitrary: fuel par nx)
  case (Node a ts)
  from Node.prems(3) have ts: "ts \<noteq> []" by simp
  from Node.prems(1) have nd: "ndesc (H a) = int (length ts)"
    and lf: "lfdesc (H a) = first_addr ts" and sf: "shape_forest H (Some a) ts" by auto
  have nd0: "ndesc (H a) \<noteq> 0" using nd ts by simp
  obtain f where f: "fuel = Suc f" using Node.prems(4) by (cases fuel) auto
  let ?u = "last ts"
  have uin: "?u \<in> set ts" using ts by simp
  have lva: "lastvisit (H a) = Some (last (pre (Node a ts)))"
    using Node.prems(2) ts by (simp add: lv_ok_def)
  have lastpre: "last (pre (Node a ts)) = last (pre ?u)"
    using ts by (simp add: last_pre_forest)
  show ?case
  proof (cases "kids ?u = []")
    case False
    obtain nxu where shu: "shape H (Some a) nxu ?u" using shape_forest_mem[OF sf uin] by blast
    have lvu: "lv_ok H ?u" by (rule lv_ok_child[OF Node.prems(2) uin])
    have lvu1: "lastvisit (H (addr ?u)) = Some (last (pre ?u))"
      using lvu False by (simp add: lv_ok_def)
    have ndu: "ndesc (H (addr ?u)) \<noteq> 0"
      using shu False by (cases ?u) auto
    have eq: "descend_internal cf fuel H (Some a) = descend_internal cf fuel H (Some (addr ?u))"
      using f nd0 ndu lva lvu1 lastpre by (simp add: lastvisit_anc_lfdesc_def)
    have len: "length (pre ?u) \<le> fuel" "length (pre ?u) \<le> cf"
      using length_pre_forest_mem[OF uin] Node.prems(4,5) by auto
    from Node.IH[OF uin shu lvu False len]
    obtain p where p: "descend_internal cf fuel H (Some (addr ?u)) = Some p" "ndesc (H p) = 0"
      "anc (H p) = Some (last (inodes_of ?u))" by blast
    have "last (inodes_of (Node a ts)) = last (inodes_of ?u)"
      using ts False last_inodes_forest[OF ts False] inodes_forest_last_tip[OF ts False] by simp
    with p eq show ?thesis by simp
  next
    case True
    then have preu: "pre ?u = [addr ?u]" by (cases ?u) auto
    have ancL: "anc (H (addr ?u)) = Some a" using shape_forest_last[OF ts sf] by simp
    have first: "lastvisit_anc_lfdesc H a = Some (first_addr ts)"
      using lva lastpre preu ancL lf by (simp add: lastvisit_anc_lfdesc_def)
    have lts: "length ts < cf"
      using length_le_pre_forest[of ts] Node.prems(5) by simp
    have sc: "scan_siblings cf H (first_addr ts) (first_addr ts) = Some (pick ts (first_addr ts))"
      by (rule scan_siblings_forest[OF sf lts])
    have step: "descend_internal cf fuel H (Some a) = descend_internal cf f H (pick ts (first_addr ts))"
      using f nd0 first sc by simp
    show ?thesis
    proof (cases "inodes_of_forest ts = []")
      case True
      obtain t1 ts1 where tsc: "ts = t1 # ts1" using ts by (cases ts) auto
      have pk: "pick ts (first_addr ts) = Some (addr t1)"
        using pick_spec[of ts "first_addr ts"] True tsc by simp
      have k1: "kids t1 = []" using True tsc by (cases t1) (auto split: if_splits)
      obtain nx1 where sh1: "shape H (Some a) nx1 t1"
        using shape_forest_mem[OF sf, of t1] tsc by auto
      have nd1: "ndesc (H (addr t1)) = 0" and an1: "anc (H (addr t1)) = Some a"
        using sh1 k1 by (cases t1; auto)+
      have "2 \<le> length (pre (Node a ts))" using tsc by (cases t1) simp
      then obtain f' where f': "f = Suc f'" using Node.prems(4) f by (cases f) auto
      have "descend_internal cf f H (Some (addr t1)) = Some (addr t1)"
        using f' nd1 by simp
      then show ?thesis
        using step pk nd1 an1 True ts by simp
    next
      case False
      then obtain u where u: "u \<in> set ts" "kids u \<noteq> []" "pick ts (first_addr ts) = Some (addr u)"
        "last (inodes_of_forest ts) = last (inodes_of u)"
        using pick_spec[of ts "first_addr ts"] by blast
      obtain nxu where shu: "shape H (Some a) nxu u" using shape_forest_mem[OF sf u(1)] by blast
      have lvu: "lv_ok H u" by (rule lv_ok_child[OF Node.prems(2) u(1)])
      have len: "length (pre u) \<le> f" "length (pre u) \<le> cf"
        using length_pre_forest_mem[OF u(1)] Node.prems(4,5) f by auto
      from Node.IH[OF u(1) shu lvu u(2) len]
      obtain p where p: "descend_internal cf f H (Some (addr u)) = Some p" "ndesc (H p) = 0"
        "anc (H p) = Some (last (inodes_of u))" by blast
      have "last (inodes_of (Node a ts)) = last (inodes_of u)"
        using ts False u(4) by simp
      with p step u(3) show ?thesis by simp
    qed
  qed
qed

lemma built_lengths:
  "length (vseq (b_phy (built h t))) = length (pre t)"
  using frame_ok_run(1)[of "build_init h (Some (addr t)) (int (length (pre t))) (int (length (tips_of t)))" t]
  by (simp add: built_def build_init_def frame_ok_def)

lemma built_shape: "shape h None None t \<Longrightarrow> shape (b_heap (built h t)) None None t"
  using shape_same_links(1)[OF built_links] by blast

lemma built_lv_ok: "distinct (pre t) \<Longrightarrow> lv_ok (b_heap (built h t)) t"
  by (simp add: lv_ok_def built_lastvisit)

lemma map_eq_nth:
  "map f xs = map g [0..<length xs] \<Longrightarrow> m < length xs \<Longrightarrow> f (xs ! m) = g m"
  by (metis add_0 length_map nth_map nth_upt)

lemma built_index_tip:
  assumes "shape h None None t" "distinct (pre t)" "m < length (tips_of t)"
  shows "index (b_heap (built h t) (tips_of t ! m)) = int m"
  using map_eq_nth[OF built_index(1)[OF assms(1,2)] assms(3)] .

lemma built_index_inode:
  assumes "shape h None None t" "distinct (pre t)" "m < length (inodes_of t)"
  shows "index (b_heap (built h t) (inodes_of t ! m)) = int (length (tips_of t)) + int m"
  using map_eq_nth[OF built_index(2)[OF assms(1,2)] assms(3)] .

lemma last_pre_tip:
  "last (pre t) \<in> set (tips_of t)"
  "ts \<noteq> [] \<Longrightarrow> last (pre_forest ts) \<in> set (tips_of_forest ts)"
proof (induction t and ts rule: pre_pre_forest.induct)
  case (1 a ts)
  then show ?case by (cases "ts = []") auto
next
  case 2
  then show ?case by simp
next
  case (3 t ts)
  then show ?case by (cases "ts = []") auto
qed

lemma built_last_node:
  assumes sh: "shape h None None t" and d: "distinct (pre t)" and k: "kids t \<noteq> []"
  shows "last_node (b_heap (built h t)) (b_phy (built h t)) (addr t) = Some (Some (last (pre t)))"
proof -
  let ?H = "b_heap (built h t)" and ?PH = "b_phy (built h t)"
  have lv: "lastvisit (?H (addr t)) = Some (last (pre t))"
    using built_lastvisit[OF d subtrees_self k] .
  obtain m where m: "m < length (tips_of t)" "tips_of t ! m = last (pre t)"
    using last_pre_tip(1)[of t] by (auto simp: in_set_conv_nth)
  have idx: "index (?H (last (pre t))) = int m"
    using built_index_tip[OF sh d m(1)] m(2) by simp
  have mlt: "m < length (pre t)" using m(1) length_pre_split(1)[of t] by simp
  have vs: "vseq ?PH ! m = int (length (pre t)) - 1"
    using built_vseq_last[OF sh] idx by simp
  have "arr_get (vseq ?PH) (index (?H (last (pre t)))) = Some (int (length (pre t)) - 1)"
    using idx mlt vs by (simp add: arr_get_def built_lengths)
  moreover have "arr_get (nodes ?PH) (int (length (pre t)) - 1) = Some (Some (last (pre t)))"
    by (simp add: arr_get_def built_nodes last_conv_nth nat_diff_distrib' nth_map)
  ultimately show ?thesis using lv by (simp add: last_node_def)
qed

lemma built_last_internal:
  assumes sh: "shape h None None t" and d: "distinct (pre t)" and k: "kids t \<noteq> []"
    and fuel: "length (pre t) \<le> fuel"
  shows "last_internal fuel (b_heap (built h t)) (b_phy (built h t)) (addr t) =
     Some (Some (last (inodes_of t)))"
proof -
  let ?H = "b_heap (built h t)" and ?PH = "b_phy (built h t)"
  have sh': "shape ?H None None t" by (rule built_shape[OF sh])
  have nd0: "ndesc (?H (addr t)) \<noteq> 0" using sh' k by (cases t) auto
  obtain p where p: "descend_internal fuel (Suc fuel) ?H (Some (addr t)) = Some p"
    "anc (?H p) = Some (last (inodes_of t))"
    using descend_internal_tree[OF sh' built_lv_ok[OF d] k, of "Suc fuel" fuel] fuel by auto
  have ne: "inodes_of t \<noteq> []" using k by simp
  obtain m where ml: "length (inodes_of t) = Suc m"
    using ne by (cases "inodes_of t") auto
  have m: "m < length (inodes_of t)" "inodes_of t ! m = last (inodes_of t)"
    using ne ml by (simp_all add: last_conv_nth)
  have idx: "index (?H (last (inodes_of t))) = int (length (tips_of t)) + int m"
    using built_index_inode[OF sh d m(1)] m(2) by simp
  have ag: "arr_get (inodes ?PH) (index (?H (last (inodes_of t))) - ntip ?PH) =
      Some (Some (last (inodes_of t)))"
    using idx m built_counts(1)[of h t] by (simp add: arr_get_def built_inodes[OF sh])
  have "last_internal fuel ?H ?PH (addr t) =
      Option.bind (descend_internal fuel (Suc fuel) ?H (Some (addr t)))
        (\<lambda>p. Option.bind (anc (?H p)) (\<lambda>pa. arr_get (inodes ?PH) (index (?H pa) - ntip ?PH)))"
    using nd0 by (simp add: last_internal_def)
  then show ?thesis using p ag by simp
qed

lemma subtrees_segment:
  "s \<in> set (subtrees t) \<Longrightarrow> \<exists>xs ys. pre t = xs @ pre s @ ys"
  "s \<in> set (subtrees_forest ts) \<Longrightarrow> \<exists>xs ys. pre_forest ts = xs @ pre s @ ys"
proof (induction t and ts rule: subtrees_subtrees_forest.induct)
  case (1 a ts)
  show ?case
  proof (cases "s = Node a ts")
    case True
    then have "pre (Node a ts) = [] @ pre s @ []" by simp
    then show ?thesis by blast
  next
    case False
    then obtain xs ys where "pre_forest ts = xs @ pre s @ ys" using 1 by auto
    then have "pre (Node a ts) = (a # xs) @ pre s @ ys" by simp
    then show ?thesis by blast
  qed
next
  case 2
  then show ?case by simp
next
  case (3 t ts)
  show ?case
  proof (cases "s \<in> set (subtrees t)")
    case True
    then obtain xs ys where "pre t = xs @ pre s @ ys" using 3 by auto
    then have "pre_forest (t # ts) = xs @ pre s @ (ys @ pre_forest ts)" by simp
    then show ?thesis by blast
  next
    case False
    then obtain xs ys where "pre_forest ts = xs @ pre s @ ys" using 3 by auto
    then have "pre_forest (t # ts) = (pre t @ xs) @ pre s @ ys" by simp
    then show ?thesis by blast
  qed
qed

lemma postorder_descendants_first:
  assumes "s \<in> set (subtrees t)"
  shows "\<exists>xs ys. rev (pre t) = xs @ rev (tl (pre s)) @ addr s # ys"
proof -
  obtain xs ys where "pre t = xs @ pre s @ ys" using subtrees_segment(1)[OF assms] by blast
  moreover have "pre s = addr s # tl (pre s)" by (cases s) simp
  ultimately have "rev (pre t) = rev ys @ rev (tl (pre s)) @ addr s # rev xs"
    by (metis append.assoc append_Cons append_Nil rev.simps(2) rev_append)
  then show ?thesis by blast
qed

lemma built_root_index:
  assumes sh: "shape h None None t" and d: "distinct (pre t)" and k: "kids t \<noteq> []"
  shows "index (b_heap (built h t) (addr t)) = int (length (tips_of t))"
    and "arr_get (vseq (b_phy (built h t))) (index (b_heap (built h t) (addr t))) = Some 0"
proof -
  obtain a ts where t: "t = Node a ts" by (cases t)
  with k have ts: "ts \<noteq> []" by simp
  have i0: "inodes_of t ! 0 = addr t" "0 < length (inodes_of t)" using t ts by simp_all
  show idx: "index (b_heap (built h t) (addr t)) = int (length (tips_of t))"
    using built_index_inode[OF sh d i0(2)] i0(1) by simp
  have "length (tips_of t) < length (pre t)"
    using length_pre_split(1)[of t] i0(2) by simp
  then show "arr_get (vseq (b_phy (built h t))) (index (b_heap (built h t) (addr t))) = Some 0"
    using idx built_vseq_root[OF sh k] by (simp add: arr_get_def built_lengths)
qed

lemma built_last_vseq:
  assumes sh: "shape h None None t" and d: "distinct (pre t)"
  shows "arr_get (vseq (b_phy (built h t))) (index (b_heap (built h t) (last (pre t)))) =
     Some (int (length (pre t)) - 1)"
proof -
  let ?H = "b_heap (built h t)" and ?PH = "b_phy (built h t)"
  obtain m where m: "m < length (tips_of t)" "tips_of t ! m = last (pre t)"
    using last_pre_tip(1)[of t] by (auto simp: in_set_conv_nth)
  have idx: "index (?H (last (pre t))) = int m"
    using built_index_tip[OF sh d m(1)] m(2) by simp
  have mlt: "m < length (pre t)" using m(1) length_pre_split(1)[of t] by simp
  have vs: "vseq ?PH ! m = int (length (pre t)) - 1"
    using built_vseq_last[OF sh] idx by simp
  show ?thesis using idx mlt vs by (simp add: arr_get_def built_lengths)
qed

lemma built_ndesc_root:
  assumes sh: "shape h None None t"
  shows "(ndesc (b_heap (built h t) (addr t)) \<noteq> 0) = (kids t \<noteq> [])"
  using built_shape[OF sh] by (cases t) auto

lemma steps_single:
  "c_next c = Some a \<Longrightarrow> c_end c = Some a \<Longrightarrow>
   cursor_steps (Suc k) ph c = Some (Some a # replicate k None)"
  using steps_none[of "c\<lparr> c_begin := None, c_end := None, c_next := None \<rparr>" k ph]
  by (simp add: phy_cursor_step_def)

lemma prepare_tip:
  assumes "ndesc (H a) = 0"
  shows "\<exists>c. phy_cursor_prepare_v2 fuel H PH a c0 vis ord = Some c \<and>
     c_next c = Some a \<and> c_end c = Some a"
  using assms by (simp add: phy_cursor_prepare_v2_def Let_def)

lemma prepare_pre_all:
  assumes sh: "shape h None None t" and d: "distinct (pre t)" and k: "kids t \<noteq> []"
  shows "\<exists>c. phy_cursor_prepare_v2 fuel (b_heap (built h t)) (b_phy (built h t)) (addr t) c0
       ALL_NODES PREORDER = Some c \<and>
     c_visit c = ALL_NODES \<and> c_order c = PREORDER \<and> c_next c = Some (addr t) \<and>
     c_end c = Some (last (pre t)) \<and> c_cursor c = 1"
  using built_ndesc_root[OF sh] k built_last_node[OF sh d k] built_root_index(2)[OF sh d k]
  by (simp add: phy_cursor_prepare_v2_def Let_def)

lemma prepare_post_all:
  assumes sh: "shape h None None t" and d: "distinct (pre t)" and k: "kids t \<noteq> []"
  shows "\<exists>c. phy_cursor_prepare_v2 fuel (b_heap (built h t)) (b_phy (built h t)) (addr t) c0
       ALL_NODES POSTORDER = Some c \<and>
     c_visit c = ALL_NODES \<and> c_order c = POSTORDER \<and> c_next c = Some (last (pre t)) \<and>
     c_end c = Some (addr t) \<and> c_cursor c = int (length (pre t)) - 2"
  using built_ndesc_root[OF sh] k built_last_node[OF sh d k] built_last_vseq[OF sh d]
  by (simp add: phy_cursor_prepare_v2_def Let_def PREORDER_def POSTORDER_def)

lemma prepare_pre_internal:
  assumes sh: "shape h None None t" and d: "distinct (pre t)" and k: "kids t \<noteq> []"
    and fuel: "length (pre t) \<le> fuel"
  shows "\<exists>c. phy_cursor_prepare_v2 fuel (b_heap (built h t)) (b_phy (built h t)) (addr t) c0
       INTERNAL_NODES_ONLY PREORDER = Some c \<and>
     c_visit c = INTERNAL_NODES_ONLY \<and> c_order c = PREORDER \<and> c_next c = Some (addr t) \<and>
     c_end c = Some (last (inodes_of t)) \<and> c_cursor c = 1"
  using built_ndesc_root[OF sh] k built_last_internal[OF sh d k fuel] built_root_index(1)[OF sh d k]
    built_counts(1)[of h t]
  by (simp add: phy_cursor_prepare_v2_def Let_def INTERNAL_NODES_ONLY_def ALL_NODES_def)

lemma prepare_post_internal:
  assumes sh: "shape h None None t" and d: "distinct (pre t)" and k: "kids t \<noteq> []"
    and fuel: "length (pre t) \<le> fuel"
  shows "\<exists>c. phy_cursor_prepare_v2 fuel (b_heap (built h t)) (b_phy (built h t)) (addr t) c0
       INTERNAL_NODES_ONLY POSTORDER = Some c \<and>
     c_visit c = INTERNAL_NODES_ONLY \<and> c_order c = POSTORDER \<and>
     c_next c = Some (last (inodes_of t)) \<and>
     c_end c = Some (addr t) \<and> c_cursor c = int (length (inodes_of t)) - 2"
proof -
  have ne: "inodes_of t \<noteq> []" using k by simp
  obtain m where ml: "length (inodes_of t) = Suc m"
    using ne by (cases "inodes_of t") auto
  have m: "m < length (inodes_of t)" "inodes_of t ! m = last (inodes_of t)"
    using ne ml by (simp_all add: last_conv_nth)
  have idx: "index (b_heap (built h t) (last (inodes_of t))) = int (length (tips_of t)) + int m"
    using built_index_inode[OF sh d m(1)] m(2) by simp
  show ?thesis
    using built_ndesc_root[OF sh] k built_last_internal[OF sh d k fuel] idx ml
      built_counts(1)[of h t]
    by (simp add: phy_cursor_prepare_v2_def Let_def INTERNAL_NODES_ONLY_def ALL_NODES_def
        PREORDER_def POSTORDER_def)
qed

text \<open>The internal nodes are the nodes whose \<^verbatim>\<open>ndesc\<close> is not zero, in preorder.\<close>

lemma shape_inodes_filter:
  "shape h par nx t \<Longrightarrow> inodes_of t = filter (\<lambda>a. ndesc (h a) \<noteq> 0) (pre t)"
  "shape_forest h par ts \<Longrightarrow> inodes_of_forest ts = filter (\<lambda>a. ndesc (h a) \<noteq> 0) (pre_forest ts)"
  by (induction h par nx t and h par ts rule: shape_shape_forest.induct) auto

lemma tip_root_lists:
  "kids t = [] \<Longrightarrow> pre t = [addr t]"
  by (cases t) simp

text \<open>
  C7.  Traversal of a built tree.  Let the node graph given to \<^verbatim>\<open>phy_build\<close> be the tree
  \<open>t\<close>: the node passed as root has neither ancestor nor next sibling, every node has
  \<^verbatim>\<open>ndesc\<close> children chained from \<^verbatim>\<open>lfdesc\<close> by \<^verbatim>\<open>next\<close> and pointing back with \<^verbatim>\<open>anc\<close>,
  the nodes are pairwise distinct, and the counts passed are the numbers of nodes and
  of tips of \<open>t\<close> (the loops are given at least as many rounds as there are nodes).
  Then the build succeeds, and from its root, after any initial cursor \<open>c0\<close>:

  \<^item> the preorder cursor over all nodes returns exactly the \<^verbatim>\<open>nnode\<close> nodes of the
    tree, in preorder, and a null pointer on each of the \<open>k\<close> steps after them;
  \<^item> the postorder cursor over all nodes returns the same nodes in the reverse order,
    in which the descendants of every node come right before the node;
  \<^item> with the internal-only filter and a root that has a child, the cursors return
    exactly the \<^verbatim>\<open>nnode - ntip\<close> nodes with children, in that preorder and in its
    reverse; on a single node (a root that is a tip) they return that node, once;
  \<^item> after the last node every cursor returns a null pointer on every step.
\<close>

theorem phy_cursor_traversal:
  assumes sh: "shape h None None t" and d: "distinct (pre t)" and fuel: "length (pre t) \<le> fuel"
  shows "\<exists>h' ph.
     phy_build fuel h (Some (addr t)) (int (length (pre t))) (int (length (tips_of t))) = Some (h', ph) \<and>
     root ph = Some (addr t) \<and> nnode ph = int (length (pre t)) \<and>
     nnode ph - ntip ph = int (length (inodes_of t)) \<and>
     inodes_of t = filter (\<lambda>a. ndesc (h' a) \<noteq> 0) (pre t) \<and>
     (\<exists>c. phy_cursor_prepare_v2 fuel h' ph (addr t) c0 ALL_NODES PREORDER = Some c \<and>
          cursor_steps (length (pre t) + k) ph c = Some (map Some (pre t) @ replicate k None)) \<and>
     (\<exists>c. phy_cursor_prepare_v2 fuel h' ph (addr t) c0 ALL_NODES POSTORDER = Some c \<and>
          cursor_steps (length (pre t) + k) ph c = Some (map Some (rev (pre t)) @ replicate k None)) \<and>
     (\<exists>c. phy_cursor_prepare_v2 fuel h' ph (addr t) c0 INTERNAL_NODES_ONLY PREORDER = Some c \<and>
          cursor_steps (length (if kids t = [] then [addr t] else inodes_of t) + k) ph c =
            Some (map Some (if kids t = [] then [addr t] else inodes_of t) @ replicate k None)) \<and>
     (\<exists>c. phy_cursor_prepare_v2 fuel h' ph (addr t) c0 INTERNAL_NODES_ONLY POSTORDER = Some c \<and>
          cursor_steps (length (if kids t = [] then [addr t] else inodes_of t) + k) ph c =
            Some (map Some (rev (if kids t = [] then [addr t] else inodes_of t)) @ replicate k None)) \<and>
     (\<forall>s \<in> set (subtrees t). \<exists>xs ys. rev (pre t) = xs @ rev (tl (pre s)) @ addr s # ys)"
proof -
  let ?H = "b_heap (built h t)" and ?PH = "b_phy (built h t)"
  have build: "phy_build fuel h (Some (addr t)) (int (length (pre t))) (int (length (tips_of t))) =
      Some (?H, ?PH)"
    by (rule phy_build_run[OF sh fuel])
  have cnt: "root ?PH = Some (addr t)" "nnode ?PH = int (length (pre t))"
      "nnode ?PH - ntip ?PH = int (length (inodes_of t))"
    using built_counts[of h t] length_pre_split(1)[of t] by simp_all
  have filt: "inodes_of t = filter (\<lambda>a. ndesc (?H a) \<noteq> 0) (pre t)"
    by (rule shape_inodes_filter(1)[OF built_shape[OF sh]])
  have di: "distinct (inodes_of t)" using d filt by (metis distinct_filter)
  have desc: "\<forall>s \<in> set (subtrees t). \<exists>xs ys. rev (pre t) = xs @ rev (tl (pre s)) @ addr s # ys"
    using postorder_descendants_first by blast
  have pne: "pre t \<noteq> []" "pre t ! 0 = addr t" by (cases t; simp)+
  have all_pre: "\<exists>c. phy_cursor_prepare_v2 fuel ?H ?PH (addr t) c0 ALL_NODES PREORDER = Some c \<and>
          cursor_steps (length (pre t) + k) ?PH c = Some (map Some (pre t) @ replicate k None)"
  proof (cases "kids t = []")
    case True
    obtain c where c: "phy_cursor_prepare_v2 fuel ?H ?PH (addr t) c0 ALL_NODES PREORDER = Some c"
        "c_next c = Some (addr t)" "c_end c = Some (addr t)"
      using prepare_tip[of ?H "addr t"] built_ndesc_root[OF sh] True by blast
    show ?thesis using c(1) steps_single[OF c(2,3), of k ?PH] tip_root_lists[OF True] by simp
  next
    case False
    obtain c where c: "phy_cursor_prepare_v2 fuel ?H ?PH (addr t) c0 ALL_NODES PREORDER = Some c"
        "c_visit c = ALL_NODES" "c_order c = PREORDER" "c_next c = Some (addr t)"
        "c_end c = Some (last (pre t))" "c_cursor c = 1"
      using prepare_pre_all[OF sh d False] by blast
    have "cursor_steps (length (pre t) + k) ?PH c = Some (map Some (drop 0 (pre t)) @ replicate k None)"
      using c pne by (intro steps_pre[OF d, where m = 0]) (simp_all add: built_nodes)
    then show ?thesis using c(1) by simp
  qed
  have all_post: "\<exists>c. phy_cursor_prepare_v2 fuel ?H ?PH (addr t) c0 ALL_NODES POSTORDER = Some c \<and>
          cursor_steps (length (pre t) + k) ?PH c = Some (map Some (rev (pre t)) @ replicate k None)"
  proof (cases "kids t = []")
    case True
    obtain c where c: "phy_cursor_prepare_v2 fuel ?H ?PH (addr t) c0 ALL_NODES POSTORDER = Some c"
        "c_next c = Some (addr t)" "c_end c = Some (addr t)"
      using prepare_tip[of ?H "addr t"] built_ndesc_root[OF sh] True by blast
    show ?thesis using c(1) steps_single[OF c(2,3), of k ?PH] tip_root_lists[OF True] by simp
  next
    case False
    obtain c where c: "phy_cursor_prepare_v2 fuel ?H ?PH (addr t) c0 ALL_NODES POSTORDER = Some c"
        "c_visit c = ALL_NODES" "c_order c = POSTORDER" "c_next c = Some (last (pre t))"
        "c_end c = Some (addr t)" "c_cursor c = int (length (pre t)) - 2"
      using prepare_post_all[OF sh d False] by blast
    obtain m where m: "length (pre t) = Suc m" using pne by (cases "pre t") auto
    have lst: "last (pre t) = pre t ! m" using pne m by (simp add: last_conv_nth)
    have "cursor_steps (Suc m + k) ?PH c = Some (map Some (rev (take (Suc m) (pre t))) @ replicate k None)"
      using c pne m lst
      by (intro steps_post[OF d]) (simp_all add: built_nodes PREORDER_def POSTORDER_def)
    then show ?thesis using c(1) m by simp
  qed
  let ?ys = "if kids t = [] then [addr t] else inodes_of t"
  have int_pre: "\<exists>c. phy_cursor_prepare_v2 fuel ?H ?PH (addr t) c0 INTERNAL_NODES_ONLY PREORDER = Some c \<and>
          cursor_steps (length ?ys + k) ?PH c = Some (map Some ?ys @ replicate k None)"
  proof (cases "kids t = []")
    case True
    obtain c where c: "phy_cursor_prepare_v2 fuel ?H ?PH (addr t) c0 INTERNAL_NODES_ONLY PREORDER = Some c"
        "c_next c = Some (addr t)" "c_end c = Some (addr t)"
      using prepare_tip[of ?H "addr t"] built_ndesc_root[OF sh] True by blast
    show ?thesis using c(1) steps_single[OF c(2,3), of k ?PH] True by simp
  next
    case False
    obtain c where c: "phy_cursor_prepare_v2 fuel ?H ?PH (addr t) c0 INTERNAL_NODES_ONLY PREORDER = Some c"
        "c_visit c = INTERNAL_NODES_ONLY" "c_order c = PREORDER" "c_next c = Some (addr t)"
        "c_end c = Some (last (inodes_of t))" "c_cursor c = 1"
      using prepare_pre_internal[OF sh d False fuel] by blast
    have ine: "inodes_of t \<noteq> []" "inodes_of t ! 0 = addr t" using False by (cases t; simp)+
    have "cursor_steps (length (inodes_of t) + k) ?PH c =
        Some (map Some (drop 0 (inodes_of t)) @ replicate k None)"
      using c ine
      by (intro steps_pre[OF di, where m = 0])
         (simp_all add: built_inodes[OF sh] INTERNAL_NODES_ONLY_def ALL_NODES_def)
    then show ?thesis using c(1) False by simp
  qed
  have int_post: "\<exists>c. phy_cursor_prepare_v2 fuel ?H ?PH (addr t) c0 INTERNAL_NODES_ONLY POSTORDER = Some c \<and>
          cursor_steps (length ?ys + k) ?PH c = Some (map Some (rev ?ys) @ replicate k None)"
  proof (cases "kids t = []")
    case True
    obtain c where c: "phy_cursor_prepare_v2 fuel ?H ?PH (addr t) c0 INTERNAL_NODES_ONLY POSTORDER = Some c"
        "c_next c = Some (addr t)" "c_end c = Some (addr t)"
      using prepare_tip[of ?H "addr t"] built_ndesc_root[OF sh] True by blast
    show ?thesis using c(1) steps_single[OF c(2,3), of k ?PH] True by simp
  next
    case False
    obtain c where c: "phy_cursor_prepare_v2 fuel ?H ?PH (addr t) c0 INTERNAL_NODES_ONLY POSTORDER = Some c"
        "c_visit c = INTERNAL_NODES_ONLY" "c_order c = POSTORDER" "c_next c = Some (last (inodes_of t))"
        "c_end c = Some (addr t)" "c_cursor c = int (length (inodes_of t)) - 2"
      using prepare_post_internal[OF sh d False fuel] by blast
    have ine: "inodes_of t \<noteq> []" "inodes_of t ! 0 = addr t" using False by (cases t; simp)+
    obtain m where m: "length (inodes_of t) = Suc m" using ine by (cases "inodes_of t") auto
    have lst: "last (inodes_of t) = inodes_of t ! m" using ine m by (simp add: last_conv_nth)
    have "cursor_steps (Suc m + k) ?PH c =
        Some (map Some (rev (take (Suc m) (inodes_of t))) @ replicate k None)"
      using c ine m lst
      by (intro steps_post[OF di])
         (simp_all add: built_inodes[OF sh] PREORDER_def POSTORDER_def INTERNAL_NODES_ONLY_def ALL_NODES_def)
    then show ?thesis using c(1) m False by simp
  qed
  show ?thesis
    using build cnt filt all_pre all_post int_pre int_post desc by blast
qed

text \<open>
  The four traversals of the tree of \<^verbatim>\<open>(A,B);\<close>, with two more steps each, and the place
  of each of its three subtrees in the postorder sequence.
\<close>

theorem phy_cursor_traversal_witness:
  "\<exists>h' ph.
     phy_build 3 cherry_heap (Some 0) 3 2 = Some (h', ph) \<and>
     root ph = Some 0 \<and> nnode ph = 3 \<and> nnode ph - ntip ph = 1 \<and>
     (\<exists>c. phy_cursor_prepare_v2 3 h' ph 0 cursor_init ALL_NODES PREORDER = Some c \<and>
          cursor_steps 5 ph c = Some [Some 0, Some 1, Some 2, None, None]) \<and>
     (\<exists>c. phy_cursor_prepare_v2 3 h' ph 0 cursor_init ALL_NODES POSTORDER = Some c \<and>
          cursor_steps 5 ph c = Some [Some 2, Some 1, Some 0, None, None]) \<and>
     (\<exists>c. phy_cursor_prepare_v2 3 h' ph 0 cursor_init INTERNAL_NODES_ONLY PREORDER = Some c \<and>
          cursor_steps 3 ph c = Some [Some 0, None, None]) \<and>
     (\<exists>c. phy_cursor_prepare_v2 3 h' ph 0 cursor_init INTERNAL_NODES_ONLY POSTORDER = Some c \<and>
          cursor_steps 3 ph c = Some [Some 0, None, None]) \<and>
     subtrees (Node 0 [Node 1 [], Node 2 []]) = [Node 0 [Node 1 [], Node 2 []], Node 1 [], Node 2 []] \<and>
     (\<exists>xs ys. [2, 1, 0 :: nat] = xs @ [2, 1] @ 0 # ys) \<and>
     (\<exists>xs ys. [2, 1, 0 :: nat] = xs @ [] @ 1 # ys) \<and>
     (\<exists>xs ys. [2, 1, 0 :: nat] = xs @ [] @ 2 # ys)"
proof -
  have sh: "shape cherry_heap None None (Node 0 [Node 1 [], Node 2 []])"
    by (simp add: cherry_heap_def node_init_def)
  have d: "distinct (pre (Node 0 [Node 1 [], Node 2 []]))" by simp
  have f: "length (pre (Node 0 [Node 1 [], Node 2 []])) \<le> 3" by simp
  have r: "replicate 2 (None :: nat option) = [None, None]" by (simp add: numeral_2_eq_2)
  show ?thesis
    using phy_cursor_traversal[OF sh d f, of cursor_init 2]
    by (simp add: r eval_nat_numeral del: cursor_steps.simps) blast
qed

text \<open>
  Two built trees on which the counts differ.  On a single node, built with
  \<open>nnode = ntip = 1\<close>, the internal-only cursor from the root returns the root, one
  node where \<open>nnode - ntip = 0\<close>: \<^verbatim>\<open>phy_cursor_prepare_v2\<close> sets \<^verbatim>\<open>end\<close> to the start node
  whenever that node has no children, whatever the filter.  On the tree read from
  \<^verbatim>\<open>(A,(B,C);\<close>, whose root is the inner node at address 2, the preorder cursor over
  all nodes returns three nodes where \<open>nnode = 5\<close>.
\<close>

theorem phy_cursor_count_counterexample:
  "(case phy_build 1 (\<lambda>_. node_init) (Some 0) 1 1 of
      None \<Rightarrow> False
    | Some (h', ph) \<Rightarrow> root ph = Some 0 \<and> nnode ph = 1 \<and> nnode ph - ntip ph = 0 \<and>
        (case phy_cursor_prepare_v2 1 h' ph 0 cursor_init INTERNAL_NODES_ONLY PREORDER of
           None \<Rightarrow> False
         | Some c \<Rightarrow> cursor_steps 3 ph c = Some [Some 0, None, None])) \<and>
   (case phy_read_newickstr 20 store_init ''(A,(B,C);'' of
      Some (s, Some ph) \<Rightarrow> root ph = Some 2 \<and> nnode ph = 5 \<and>
        (case phy_cursor_prepare_v2 20 (heap s) ph 2 cursor_init ALL_NODES PREORDER of
           None \<Rightarrow> False
         | Some c \<Rightarrow> cursor_steps 6 ph c = Some [Some 2, Some 3, Some 4, None, None, None])
    | _ \<Rightarrow> False)"
  by (simp add: node_defs reader_defs build_defs cursor_defs fuel_numeral Let_def
      cong: bind_weak_cong let_weak_cong prod.case_cong_weak)

section \<open>Subtree extraction\<close>

lemmas extract_fuel =
  mark_path.simps(2)[of "pred_numeral k" for k, folded numeral_eq_Suc]
  extract_climb.simps(2)[of "pred_numeral k" for k, folded numeral_eq_Suc]
  extract_loop.simps(3)[of _ "pred_numeral k" for k, folded numeral_eq_Suc]
  splice_chain.simps(2)[of "pred_numeral k" for k, folded numeral_eq_Suc]
  climb_plain.simps(2)[of "pred_numeral k" for k, folded numeral_eq_Suc]
  splice_loop.simps(3)[of _ "pred_numeral k" for k, folded numeral_eq_Suc]

lemmas extract_defs =
  mark_tips_def extract_copy_def head_up_def extract_advance_def splice_out_def
  phy_extract_subtree_def

text \<open>
  On the tree of \<^verbatim>\<open>((A:1,B:2):3,(C:4,D:5):6);\<close> the tips \<^verbatim>\<open>A\<close> and \<^verbatim>\<open>C\<close> (addresses 2 and 5)
  give a root with the two tips as children; the branch lengths 3 and 6 of the two nodes
  spliced out are added to those of their only children.
\<close>

lemma phy_extract_subtree_example:
  "(case phy_read_newickstr 40 store_init ''((A:1,B:2):3,(C:4,D:5):6);'' of
      Some (s, Some ph) \<Rightarrow>
        (case phy_extract_subtree 40 s 2 [Some 2, Some 5] ph of
           None \<Rightarrow> False
         | Some (s', sub) \<Rightarrow>
             root sub = Some 7 \<and> nnode sub = 3 \<and> ntip sub = 2 \<and>
             lfdesc (heap s' 7) = Some 9 \<and> next (heap s' 9) = Some 11 \<and> next (heap s' 11) = None \<and>
             map (\<lambda>a. (anc (heap s' a), ndesc (heap s' a), lab (heap s' a), brlen (heap s' a))) [7, 9, 11] =
               [(None, 2, None, 0), (Some 7, 0, Some ''A'', 4), (Some 7, 0, Some ''C'', 10)])
    | _ \<Rightarrow> False)"
  by (simp add: node_defs reader_defs build_defs extract_defs extract_fuel fuel_numeral Let_def upt_rec
      cong: bind_weak_cong let_weak_cong prod.case_cong_weak)

text \<open>
  The marking loop of \<^verbatim>\<open>phy_extract_subtree\<close> reads \<^verbatim>\<open>bitmask[p->index]\<close> for every ancestor
  it reaches.  When the second ancestor of the only tip has a negative index, the read
  is outside the array, whatever the number of rounds given to the loops.
\<close>

lemma mark_path_out_of_bounds:
  "anc (h p) = Some a \<Longrightarrow> arr_get bm (index (h a)) = None \<Longrightarrow> mark_path fuel h bm p = None"
  by (cases fuel) simp_all

lemma mark_path_step:
  assumes "anc (h p) = Some a" and "arr_get bm (index (h a)) = Some 0"
    and "\<And>bm1 f. arr_set bm (index (h a)) 1 = Some bm1 \<Longrightarrow> mark_path f h bm1 a = None"
  shows "mark_path fuel h bm p = None"
  using assms by (cases fuel) (auto simp: arr_get_def arr_set_def)

lemma extract_subtree_out_of_bounds:
  assumes p: "0 \<le> index (heap s p)" "index (heap s p) < nnode ph"
    and a: "anc (heap s p) = Some a" "0 \<le> index (heap s a)" "index (heap s a) < nnode ph"
      "index (heap s a) \<noteq> index (heap s p)"
    and r: "anc (heap s a) = Some r" "index (heap s r) < 0"
  shows "phy_extract_subtree fuel s 1 [Some p] ph = None"
proof -
  let ?bm = "(replicate (nat (nnode ph)) (0::int))[nat (index (heap s p)) := 1]"
  have "mark_path fuel (heap s) ?bm p = None"
  proof (rule mark_path_step[where h = "heap s" and p = p and a = a])
    show "anc (heap s p) = Some a" by (rule a(1))
  next
    show "arr_get ?bm (index (heap s a)) = Some 0"
      using p a by (auto simp: arr_get_def)
  next
    fix bm1 f
    assume "arr_set ?bm (index (heap s a)) 1 = Some bm1"
    show "mark_path f (heap s) bm1 a = None"
      using r by (intro mark_path_out_of_bounds[where h = "heap s" and a = r]) (simp_all add: arr_get_def)
  qed
  then show ?thesis
    using p by (simp add: phy_extract_subtree_def mark_tips_def arr_get_def arr_set_def)
qed

text \<open>
  C8.  Extraction from a built tree that is not well formed.  The reader builds a tree
  from \<^verbatim>\<open>(A,(B,C);\<close> whose root is the inner node at address 2; that node still has the
  node at address 0 as ancestor, which \<^verbatim>\<open>phy_build\<close> never visits and whose index is \<open>-1\<close>.
  Extracting the tip \<^verbatim>\<open>C\<close> (address 4), the marking loop climbs from the tip to address 2
  and on to address 0 and reads \<^verbatim>\<open>bitmask[-1]\<close>: \<^verbatim>\<open>phy_extract_subtree\<close> does not return
  normally, with any number of rounds for its loops.
\<close>

theorem phy_extract_subtree_unbalanced_tree:
  "(case phy_read_newickstr 20 store_init ''(A,(B,C);'' of
      Some (s, Some ph) \<Rightarrow>
        root ph = Some 2 \<and> nnode ph = 5 \<and> ntip ph = 3 \<and>
        lab (heap s 4) = Some ''C'' \<and> ndesc (heap s 4) = 0 \<and> index (heap s 4) = 1 \<and>
        anc (heap s 4) = Some 2 \<and> index (heap s 2) = 3 \<and>
        anc (heap s 2) = Some 0 \<and> index (heap s 0) = -1 \<and>
        (\<forall>fuel. phy_extract_subtree fuel s 1 [Some 4] ph = None)
    | _ \<Rightarrow> False)"
  apply (simp add: node_defs reader_defs build_defs fuel_numeral Let_def
      cong: bind_weak_cong let_weak_cong prod.case_cong_weak)
  apply (intro allI)
  apply (rule extract_subtree_out_of_bounds[where a = 2 and r = 0])
  apply simp_all
  done

end
